theory Spec2Isabelle
  imports Main
begin

section \<open>Strings, runes and the buffered reader\<close>

text \<open>
  A Go \<^verbatim>\<open>string\<close> is a sequence of bytes; \<^typ>\<open>string\<close> (a list of 8-bit
  \<^typ>\<open>char\<close>) models it, so \<^term>\<open>length\<close> is Go's \<^verbatim>\<open>len\<close>.  A rune is a
  code point, a natural number.  \<^verbatim>\<open>splitSQLStatements\<close> reads runes
  (\<^verbatim>\<open>ReadRune\<close>), peeks bytes (\<^verbatim>\<open>Peek\<close>) and writes runes
  (\<^verbatim>\<open>WriteRune\<close>), so the UTF-8 decoder and encoder of the Go standard library
  are part of what the function computes.
\<close>

type_synonym rune = nat

abbreviation rune_of :: "char \<Rightarrow> rune" where
  "rune_of c \<equiv> of_char c"

definition RuneError :: rune where
  "RuneError = 0xFFFD"

text \<open>\<^verbatim>\<open>utf8.DecodeRune\<close>: the rune at the front of the bytes and its width; an
  invalid or truncated encoding is \<^verbatim>\<open>(RuneError, 1)\<close>, no byte is \<^verbatim>\<open>(RuneError, 0)\<close>.\<close>

definition contByte :: "nat \<Rightarrow> nat \<Rightarrow> char \<Rightarrow> bool" where
  "contByte lo hi b = (lo \<le> rune_of b \<and> rune_of b \<le> hi)"

fun decodeRune :: "string \<Rightarrow> rune \<times> nat" where
  "decodeRune [] = (RuneError, 0)"
| "decodeRune (p0 # p) =
     (let b0 = rune_of p0 in
      if b0 < 0x80 then (b0, 1)
      else if b0 < 0xC2 \<or> 0xF4 < b0 then (RuneError, 1)
      else if b0 < 0xE0 then
        (case p of
           b1 # _ \<Rightarrow>
             if contByte 0x80 0xBF b1 then ((b0 mod 32) * 64 + rune_of b1 mod 64, 2)
             else (RuneError, 1)
         | _ \<Rightarrow> (RuneError, 1))
      else if b0 < 0xF0 then
        (case p of
           b1 # b2 # _ \<Rightarrow>
             if contByte (if b0 = 0xE0 then 0xA0 else 0x80) (if b0 = 0xED then 0x9F else 0xBF) b1
                \<and> contByte 0x80 0xBF b2
             then ((b0 mod 16) * 4096 + (rune_of b1 mod 64) * 64 + rune_of b2 mod 64, 3)
             else (RuneError, 1)
         | _ \<Rightarrow> (RuneError, 1))
      else
        (case p of
           b1 # b2 # b3 # _ \<Rightarrow>
             if contByte (if b0 = 0xF0 then 0x90 else 0x80) (if b0 = 0xF4 then 0x8F else 0xBF) b1
                \<and> contByte 0x80 0xBF b2 \<and> contByte 0x80 0xBF b3
             then ((b0 mod 8) * 262144 + (rune_of b1 mod 64) * 4096
                   + (rune_of b2 mod 64) * 64 + rune_of b3 mod 64, 4)
             else (RuneError, 1)
         | _ \<Rightarrow> (RuneError, 1)))"

text \<open>\<^verbatim>\<open>utf8.AppendRune\<close>, which \<^verbatim>\<open>strings.Builder.WriteRune\<close> and the conversion
  \<^verbatim>\<open>string(r)\<close> use: a surrogate or a value beyond \<^verbatim>\<open>MaxRune\<close> is written as
  \<^verbatim>\<open>RuneError\<close>.\<close>

definition encodeRune :: "rune \<Rightarrow> string" where
  "encodeRune r =
     (if r \<le> 0x7F then [char_of r]
      else if r \<le> 0x7FF then [char_of (0xC0 + r div 64), char_of (0x80 + r mod 64)]
      else if 0x10FFFF < r \<or> (0xD800 \<le> r \<and> r \<le> 0xDFFF) then
        [char_of (0xEF::nat), char_of (0xBF::nat), char_of (0xBD::nat)]
      else if r \<le> 0xFFFF then
        [char_of (0xE0 + r div 4096), char_of (0x80 + (r div 64) mod 64),
         char_of (0x80 + r mod 64)]
      else
        [char_of (0xF0 + r div 262144), char_of (0x80 + (r div 4096) mod 64),
         char_of (0x80 + (r div 64) mod 64), char_of (0x80 + r mod 64)])"

text \<open>
  \<^verbatim>\<open>bufio.NewReader(strings.NewReader(input))\<close>: the state of the reader is the bytes
  not yet consumed.  \<^verbatim>\<open>ReadRune\<close> fails with \<^verbatim>\<open>io.EOF\<close> exactly when no byte is
  left, and then returns the rune 0; no other error can come from a
  \<^verbatim>\<open>strings.Reader\<close>.  \<^verbatim>\<open>Peek(n)\<close> returns the next \<open>n\<close> bytes, fewer at
  the end of the input (every \<open>n\<close> the function asks for is below the 4096 bytes of the
  buffer).
\<close>

datatype read_error = EOF

definition ReadRune :: "string \<Rightarrow> read_error + (rune \<times> string)" where
  "ReadRune rd = (if rd = [] then Inl EOF
                  else Inr (fst (decodeRune rd), drop (snd (decodeRune rd)) rd))"

definition Peek :: "nat \<Rightarrow> string \<Rightarrow> string" where
  "Peek n rd = take n rd"

text \<open>The closure \<^verbatim>\<open>next\<close> of the loop body.\<close>

definition "next" :: "nat \<Rightarrow> string \<Rightarrow> string" where
  "next n rd = (if n \<le> 0 then [] else Peek n rd)"

definition HasPrefix :: "string \<Rightarrow> string \<Rightarrow> bool" where
  "HasPrefix s p = (take (length p) s = p)"

section \<open>\<^verbatim>\<open>strings.TrimSpace\<close>\<close>

text \<open>\<^verbatim>\<open>unicode.IsSpace\<close>: the white space of Latin-1 and the Unicode property
  \<^verbatim>\<open>White_Space\<close> beyond it.\<close>

definition IsSpace :: "rune \<Rightarrow> bool" where
  "IsSpace r =
     (r = 0x09 \<or> r = 0x0A \<or> r = 0x0B \<or> r = 0x0C \<or> r = 0x0D \<or> r = 0x20
      \<or> r = 0x85 \<or> r = 0xA0 \<or> r = 0x1680 \<or> (0x2000 \<le> r \<and> r \<le> 0x200A)
      \<or> r = 0x2028 \<or> r = 0x2029 \<or> r = 0x202F \<or> r = 0x205F \<or> r = 0x3000)"

text \<open>\<^verbatim>\<open>utf8.DecodeLastRune\<close>: the rune at the end of the bytes and its width. It
  looks back at most \<^verbatim>\<open>UTFMax = 4\<close> bytes for a byte that starts a rune, and the rune
  decoded there must end where the bytes end.\<close>

definition RuneStart :: "char \<Rightarrow> bool" where
  "RuneStart b = (\<not> (0x80 \<le> rune_of b \<and> rune_of b \<le> (0xBF::nat)))"

definition lastRuneAt :: "string \<Rightarrow> nat \<Rightarrow> rune \<times> nat" where
  "lastRuneAt s k =
     (let (r, size) = decodeRune (drop (length s - k) s)
      in if size = k then (r, size) else (RuneError, 1))"

definition DecodeLastRune :: "string \<Rightarrow> rune \<times> nat" where
  "DecodeLastRune s =
     (if s = [] then (RuneError, 0)
      else if rune_of (last s) < 0x80 then (rune_of (last s), 1)
      else if 2 \<le> length s \<and> RuneStart (s ! (length s - 2)) then lastRuneAt s 2
      else if 3 \<le> length s \<and> RuneStart (s ! (length s - 3)) then lastRuneAt s 3
      else if 4 \<le> length s \<and> RuneStart (s ! (length s - 4)) then lastRuneAt s 4
      else lastRuneAt s (min (length s) 5))"

text \<open>\<^verbatim>\<open>strings.TrimSpace\<close> removes the leading and the trailing runes that are white
  space (\<^verbatim>\<open>TrimLeftFunc\<close> decodes from the front, \<^verbatim>\<open>TrimRightFunc\<close> from the
  back).\<close>

function TrimLeftSpace :: "string \<Rightarrow> string" where
  "TrimLeftSpace s =
     (if s = [] then []
      else if IsSpace (fst (decodeRune s)) then TrimLeftSpace (drop (snd (decodeRune s)) s)
      else s)"
  by pat_completeness auto

function TrimRightSpace :: "string \<Rightarrow> string" where
  "TrimRightSpace s =
     (if s = [] then []
      else if IsSpace (fst (DecodeLastRune s))
      then TrimRightSpace (take (length s - snd (DecodeLastRune s)) s)
      else s)"
  by pat_completeness auto

lemma decodeRune_width_pos: "s \<noteq> [] \<Longrightarrow> 0 < snd (decodeRune s)"
  by (cases s) (auto simp: Let_def split: list.splits)

lemma DecodeLastRune_width_pos: "s \<noteq> [] \<Longrightarrow> 0 < snd (DecodeLastRune s)"
  by (auto simp: DecodeLastRune_def lastRuneAt_def Let_def split: prod.splits)

termination TrimLeftSpace
  by (relation "measure length") (auto simp: decodeRune_width_pos)

termination TrimRightSpace
  by (relation "measure length") (auto simp: DecodeLastRune_width_pos)

declare TrimLeftSpace.simps [simp del] TrimRightSpace.simps [simp del]

definition TrimSpace :: "string \<Rightarrow> string" where
  "TrimSpace s = TrimRightSpace (TrimLeftSpace s)"

section \<open>The statement splitter\<close>

text \<open>The local variables of \<^verbatim>\<open>splitSQLStatements\<close>: the reader, the builder
  \<^verbatim>\<open>sb\<close>, the statements emitted so far, and the five variables that hold the lexical
  state.\<close>

record scanner =
  reader :: string
  sb :: string
  statements :: "string list"
  inSingle :: bool
  inDouble :: bool
  inLineComment :: bool
  inBlockComment :: bool
  dollarTag :: string

definition WriteRune :: "rune \<Rightarrow> scanner \<Rightarrow> scanner" where
  "WriteRune r s = s\<lparr>sb := sb s @ encodeRune r\<rparr>"

text \<open>\<^verbatim>\<open>r, _, err := reader.ReadRune(); if err == nil { sb.WriteRune(r) }\<close>\<close>

definition readWriteIfOk :: "scanner \<Rightarrow> scanner" where
  "readWriteIfOk s =
     (case ReadRune (reader s) of
        Inl err \<Rightarrow> s
      | Inr (r, rd) \<Rightarrow> WriteRune r (s\<lparr>reader := rd\<rparr>))"

text \<open>\<^verbatim>\<open>if _, _, err := reader.ReadRune(); err == nil { sb.WriteRune('/') }\<close>\<close>

definition readWriteSlash :: "scanner \<Rightarrow> scanner" where
  "readWriteSlash s =
     (case ReadRune (reader s) of
        Inl err \<Rightarrow> s
      | Inr (r, rd) \<Rightarrow> WriteRune (rune_of CHR ''/'') (s\<lparr>reader := rd\<rparr>))"

text \<open>\<^verbatim>\<open>for i := 0; i < n; i++ { r, _, _ := reader.ReadRune(); sb.WriteRune(r) }\<close>:
  the error is dropped, and at the end of the input the rune written is 0.\<close>

fun readWriteRunes :: "nat \<Rightarrow> scanner \<Rightarrow> scanner" where
  "readWriteRunes 0 s = s"
| "readWriteRunes (Suc n) s =
     readWriteRunes n
       (case ReadRune (reader s) of
          Inl err \<Rightarrow> WriteRune 0 s
        | Inr (r, rd) \<Rightarrow> WriteRune r (s\<lparr>reader := rd\<rparr>))"

text \<open>The search for the opening dollar tag, \<^verbatim>\<open>for _, r := range peek\<close>: the tag
  when a second \<^verbatim>\<open>$\<close> is met, nothing when a blank, a newline or a tab comes first or
  the peeked bytes run out.\<close>

function scanTag :: "string \<Rightarrow> string \<Rightarrow> string option" where
  "scanTag tag peek =
     (if peek = [] then None
      else if fst (decodeRune peek) = rune_of CHR ''$''
      then Some (tag @ encodeRune (fst (decodeRune peek)))
      else if fst (decodeRune peek) = rune_of CHR '' ''
              \<or> fst (decodeRune peek) = rune_of CHR 0x0A
              \<or> fst (decodeRune peek) = rune_of CHR 0x09
      then None
      else scanTag (tag @ encodeRune (fst (decodeRune peek)))
             (drop (snd (decodeRune peek)) peek))"
  by pat_completeness auto
termination
  by (relation "measure (\<lambda>(tag, peek). length peek)") (auto simp: decodeRune_width_pos)

declare scanTag.simps [simp del]

text \<open>The part of the loop body under \<^verbatim>\<open>if !inSingle && !inDouble\<close>: a result is
  the state at a \<^verbatim>\<open>continue\<close>, no result means that control falls through.\<close>

definition openMarker :: "rune \<Rightarrow> scanner \<Rightarrow> scanner option" where
  "openMarker ch s =
     (let nextTwo = next 2 (reader s) in
      if ch = rune_of CHR ''-'' \<and> (nextTwo = ''- '' \<or> nextTwo = ''--'')
      then Some ((readWriteIfOk (WriteRune ch s))\<lparr>inLineComment := True\<rparr>)
      else if ch = rune_of CHR ''/'' \<and> HasPrefix (next 1 (reader s)) ''*''
      then Some ((readWriteIfOk (WriteRune ch s))\<lparr>inBlockComment := True\<rparr>)
      else if ch = rune_of CHR ''$''
      then (case scanTag ''$'' (next 64 (reader s)) of
              Some tag \<Rightarrow>
                Some (readWriteRunes (length tag - 1) (WriteRune ch (s\<lparr>dollarTag := tag\<rparr>)))
            | None \<Rightarrow> None)
      else None)"

text \<open>The boundary: the trimmed builder is emitted when it is not empty, and the builder
  is reset.\<close>

definition flush :: "scanner \<Rightarrow> scanner" where
  "flush s =
     (let statement = TrimSpace (sb s)
      in s\<lparr>statements := (if statement \<noteq> [] then statements s @ [statement]
                           else statements s),
           sb := []\<rparr>)"

definition toggleQuotes :: "rune \<Rightarrow> scanner \<Rightarrow> scanner" where
  "toggleQuotes ch s =
     (if ch = rune_of CHR 0x27 \<and> \<not> inDouble s then s\<lparr>inSingle := \<not> inSingle s\<rparr>
      else if ch = rune_of CHR 0x22 \<and> \<not> inSingle s then s\<lparr>inDouble := \<not> inDouble s\<rparr>
      else s)"

definition quotesAndBoundary :: "rune \<Rightarrow> scanner \<Rightarrow> scanner" where
  "quotesAndBoundary ch s0 =
     (let s = toggleQuotes ch s0 in
      if ch = rune_of CHR '';'' \<and> \<not> inSingle s \<and> \<not> inDouble s \<and> dollarTag s = []
         \<and> \<not> inLineComment s \<and> \<not> inBlockComment s
      then flush s
      else WriteRune ch s)"

text \<open>One iteration of the loop, after \<^verbatim>\<open>ReadRune\<close> has returned the rune \<open>ch\<close>.\<close>

definition body :: "rune \<Rightarrow> scanner \<Rightarrow> scanner" where
  "body ch s0 =
     (if inLineComment s0 then
        (let s = WriteRune ch s0
         in if ch = rune_of CHR 0x0A then s\<lparr>inLineComment := False\<rparr> else s)
      else if inBlockComment s0 then
        (let s = WriteRune ch s0
         in if ch = rune_of CHR ''*'' \<and> HasPrefix (next 1 (reader s)) ''/''
            then (readWriteSlash s)\<lparr>inBlockComment := False\<rparr>
            else s)
      else if dollarTag s0 \<noteq> [] then
        (let s = WriteRune ch s0
         in if ch = rune_of CHR ''$''
               \<and> Peek (length (dollarTag s) - 1) (reader s) = tl (dollarTag s)
            then (readWriteRunes (length (dollarTag s) - 1) s)\<lparr>dollarTag := []\<rparr>
            else s)
      else
        (case (if \<not> inSingle s0 \<and> \<not> inDouble s0 then openMarker ch s0 else None) of
           Some s \<Rightarrow> s
         | None \<Rightarrow> quotesAndBoundary ch s0))"

text \<open>One turn of \<^verbatim>\<open>for { ... }\<close> from a state with input left.\<close>

definition step :: "scanner \<Rightarrow> scanner" where
  "step s =
     (case ReadRune (reader s) of
        Inl err \<Rightarrow> s
      | Inr (ch, rd) \<Rightarrow> body ch (s\<lparr>reader := rd\<rparr>))"

text \<open>No part of an iteration gives bytes back to the reader, and a successful
  \<^verbatim>\<open>ReadRune\<close> consumes at least one byte: the loop ends.\<close>

lemma ReadRune_shorter: "ReadRune rd = Inr (r, rd') \<Longrightarrow> length rd' < length rd"
  by (auto simp: ReadRune_def decodeRune_width_pos split: if_splits)

lemma reader_WriteRune [simp]: "reader (WriteRune r s) = reader s"
  by (simp add: WriteRune_def)

lemma reader_readWriteIfOk: "length (reader (readWriteIfOk s)) \<le> length (reader s)"
  by (auto simp: readWriteIfOk_def split: sum.splits dest: ReadRune_shorter)

lemma reader_readWriteSlash: "length (reader (readWriteSlash s)) \<le> length (reader s)"
  by (auto simp: readWriteSlash_def split: sum.splits dest: ReadRune_shorter)

lemma reader_readWriteRunes: "length (reader (readWriteRunes n s)) \<le> length (reader s)"
proof (induction n arbitrary: s)
  case 0
  show ?case by simp
next
  case (Suc n)
  show ?case
  proof (cases "ReadRune (reader s)")
    case (Inl e)
    with Suc [of "WriteRune 0 s"] show ?thesis by simp
  next
    case (Inr p)
    obtain r rd where p: "p = (r, rd)" by (cases p)
    from Inr p have "length rd < length (reader s)" by (auto dest: ReadRune_shorter)
    with Suc [of "WriteRune r (s\<lparr>reader := rd\<rparr>)"] Inr p show ?thesis by simp
  qed
qed

lemma openMarker_cases:
  assumes "openMarker ch s = Some s'"
  obtains
    (line) "ch = rune_of CHR ''-''" "next 2 (reader s) = ''- '' \<or> next 2 (reader s) = ''--''"
      "s' = (readWriteIfOk (WriteRune ch s))\<lparr>inLineComment := True\<rparr>"
  | (block) "ch = rune_of CHR ''/''" "HasPrefix (next 1 (reader s)) ''*''"
      "s' = (readWriteIfOk (WriteRune ch s))\<lparr>inBlockComment := True\<rparr>"
  | (dollar) tag where "ch = rune_of CHR ''$''" "scanTag ''$'' (next 64 (reader s)) = Some tag"
      "s' = readWriteRunes (length tag - 1) (WriteRune ch (s\<lparr>dollarTag := tag\<rparr>))"
proof (cases "ch = rune_of CHR ''-'' \<and> (next 2 (reader s) = ''- '' \<or> next 2 (reader s) = ''--'')")
  case True
  then have "s' = (readWriteIfOk (WriteRune ch s))\<lparr>inLineComment := True\<rparr>"
    using assms by (simp add: openMarker_def Let_def)
  with True line show ?thesis by blast
next
  case c1: False
  show ?thesis
  proof (cases "ch = rune_of CHR ''/'' \<and> HasPrefix (next 1 (reader s)) ''*''")
    case True
    then have "s' = (readWriteIfOk (WriteRune ch s))\<lparr>inBlockComment := True\<rparr>"
      using assms c1 by (simp add: openMarker_def Let_def)
    with True block show ?thesis by blast
  next
    case c2: False
    have d: "ch = rune_of CHR ''$''"
      using assms c1 c2 by (simp add: openMarker_def Let_def split: if_splits)
    show ?thesis
    proof (cases "scanTag ''$'' (next 64 (reader s))")
      case None
      with assms c1 c2 show ?thesis
        by (simp add: openMarker_def Let_def split: if_splits)
    next
      case (Some tag)
      with assms c1 c2
      have "s' = readWriteRunes (length tag - 1) (WriteRune ch (s\<lparr>dollarTag := tag\<rparr>))"
        by (simp add: openMarker_def Let_def split: if_splits)
      with d Some dollar show ?thesis by blast
    qed
  qed
qed

lemma reader_openMarker:
  assumes "openMarker ch s = Some s'"
  shows "length (reader s') \<le> length (reader s)"
  using assms
proof (cases rule: openMarker_cases)
  case line
  then show ?thesis using reader_readWriteIfOk [of "WriteRune ch s"] by simp
next
  case block
  then show ?thesis using reader_readWriteIfOk [of "WriteRune ch s"] by simp
next
  case (dollar tag)
  then show ?thesis
    using reader_readWriteRunes [of "length tag - 1" "WriteRune ch (s\<lparr>dollarTag := tag\<rparr>)"]
    by simp
qed

lemma reader_quotesAndBoundary [simp]: "reader (quotesAndBoundary ch s) = reader s"
  by (simp add: quotesAndBoundary_def toggleQuotes_def flush_def WriteRune_def Let_def)

lemma reader_body: "length (reader (body ch s)) \<le> length (reader s)"
proof -
  have slash: "length (reader (readWriteSlash (WriteRune c s))) \<le> length (reader s)" for c
    using reader_readWriteSlash [of "WriteRune c s"] by simp
  have runes: "length (reader (readWriteRunes n (WriteRune c s))) \<le> length (reader s)" for n c
    using reader_readWriteRunes [of n "WriteRune c s"] by simp
  consider (line) "inLineComment s"
    | (block) "\<not> inLineComment s" "inBlockComment s"
    | (dollar) "\<not> inLineComment s" "\<not> inBlockComment s" "dollarTag s \<noteq> []"
    | (normal) "\<not> inLineComment s" "\<not> inBlockComment s" "dollarTag s = []"
    by blast
  then show ?thesis
  proof cases
    case line
    then show ?thesis by (simp add: body_def Let_def)
  next
    case block
    then show ?thesis using slash by (simp add: body_def Let_def)
  next
    case dollar
    then show ?thesis using runes by (simp add: body_def Let_def)
  next
    case normal
    show ?thesis
    proof (cases "if \<not> inSingle s \<and> \<not> inDouble s then openMarker ch s else None")
      case None
      with normal show ?thesis by (simp add: body_def)
    next
      case (Some s')
      then have "openMarker ch s = Some s'" by (simp split: if_splits)
      then have "length (reader s') \<le> length (reader s)" by (rule reader_openMarker)
      with normal Some show ?thesis by (simp add: body_def)
    qed
  qed
qed

text \<open>The loop \<^verbatim>\<open>for { ch, _, err := reader.ReadRune(); if err != nil { break } ... }\<close>.\<close>

function loop :: "scanner \<Rightarrow> scanner" where
  "loop s =
     (case ReadRune (reader s) of
        Inl err \<Rightarrow> s
      | Inr (ch, rd) \<Rightarrow> loop (body ch (s\<lparr>reader := rd\<rparr>)))"
  by pat_completeness auto
termination
proof (relation "measure (\<lambda>s. length (reader s))")
  show "wf (measure (\<lambda>s. length (reader s)))" by simp
next
  fix s :: scanner and x2 ch rd
  assume "ReadRune (reader s) = Inr x2" and "(ch, rd) = x2"
  then have "length rd < length (reader s)" by (auto dest: ReadRune_shorter)
  moreover have "length (reader (body ch (s\<lparr>reader := rd\<rparr>))) \<le> length rd"
    using reader_body [of ch "s\<lparr>reader := rd\<rparr>"] by simp
  ultimately show "(body ch (s\<lparr>reader := rd\<rparr>), s) \<in> measure (\<lambda>s. length (reader s))"
    by simp
qed

declare loop.simps [simp del]

text \<open>The state at the start of the function.\<close>

definition start :: "string \<Rightarrow> scanner" where
  "start input =
     \<lparr>reader = input, sb = [], statements = [], inSingle = False, inDouble = False,
      inLineComment = False, inBlockComment = False, dollarTag = []\<rparr>"

text \<open>The statements returned after the loop: the trimmed builder is the last one when
  it is not empty.\<close>

definition finish :: "scanner \<Rightarrow> string list" where
  "finish s =
     (let statement = TrimSpace (sb s)
      in if statement \<noteq> [] then statements s @ [statement] else statements s)"

definition splitSQLStatements :: "string \<Rightarrow> string list" where
  "splitSQLStatements input = finish (loop (start input))"

section \<open>Configuration\<close>

text \<open>The struct \<^verbatim>\<open>config\<close>; Go's \<^verbatim>\<open>int\<close> port is an integer (no arithmetic is done
  on it).\<close>

record config =
  engine :: string
  host :: string
  port :: int
  username :: string
  password :: string
  dbname :: string
  sqlPath :: string

text \<open>The values the flags have when the command line does not set them
  (\<^verbatim>\<open>flag.StringVar(&cfg.username, "username", "db_admin", ...)\<close> and the others in
  \<^verbatim>\<open>main\<close>).\<close>

definition flagDefaults :: config where
  "flagDefaults =
     \<lparr>engine = [], host = [], port = 0, username = ''db_admin'', password = [],
      dbname = [], sqlPath = []\<rparr>"

text \<open>\<^verbatim>\<open>strings.ToLower\<close> as the two switches use it, on the bytes: an upper-case ASCII
  letter becomes its lower-case letter and every other byte is kept.  The result is only
  compared with the three ASCII engine names. On a string with a byte from 0x80 on Go
  maps runes by the Unicode tables instead; the only runes outside ASCII whose lower case
  is an ASCII letter are U+212A (k) and U+0130 (i), letters that no engine name has, so
  such a string is unequal to the three names in Go as it is here.\<close>

definition lowerByte :: "char \<Rightarrow> char" where
  "lowerByte c =
     (if (0x41::nat) \<le> of_char c \<and> of_char c \<le> (0x5A::nat) then char_of (of_char c + (0x20::nat))
      else c)"

definition ToLower :: "string \<Rightarrow> string" where
  "ToLower s = map lowerByte s"

definition defaultPort :: "string \<Rightarrow> int" where
  "defaultPort e =
     (if ToLower e = ''oracle'' then 1521
      else if ToLower e = ''sqlserver'' then 1433
      else if ToLower e = ''postgres'' then 5432
      else 0)"

text \<open>\<^verbatim>\<open>(c *config) validate() error\<close>: the error message, or the configuration as
  the method leaves it.\<close>

definition validate :: "config \<Rightarrow> string + config" where
  "validate c =
     (if engine c = [] then Inl ''engine is required''
      else if host c = [] then Inl ''host is required''
      else if dbname c = [] then Inl ''dbname is required''
      else if sqlPath c = [] then Inl ''sql path is required''
      else if \<not> (ToLower (engine c) = ''oracle'' \<or> ToLower (engine c) = ''sqlserver''
                 \<or> ToLower (engine c) = ''postgres'')
      then Inl (''unsupported engine: '' @ engine c)
      else if port c = 0 then Inr (c\<lparr>port := defaultPort (engine c)\<rparr>)
      else Inr c)"

text \<open>The start of \<^verbatim>\<open>main\<close>, after \<^verbatim>\<open>flag.Parse\<close> and up to \<^verbatim>\<open>sql.Open\<close>:
  the file reads done and either the message of the \<^verbatim>\<open>os.Exit(1)\<close> taken or the
  configuration and statements with which the database is opened.  \<open>readFile\<close> stands
  for \<^verbatim>\<open>os.ReadFile\<close>: the text of its error, or the bytes of the file.\<close>

datatype io_action = ReadFile string

datatype progress = Exit1 string | OpenDatabase config "string list"

definition mainPrefix :: "(string \<Rightarrow> string + string) \<Rightarrow> config \<Rightarrow> io_action list \<times> progress" where
  "mainPrefix readFile cfg0 =
     (case validate cfg0 of
        Inl err \<Rightarrow> ([], Exit1 err)
      | Inr cfg \<Rightarrow>
          (case readFile (sqlPath cfg) of
             Inl err \<Rightarrow> ([ReadFile (sqlPath cfg)], Exit1 (''failed to read SQL file: '' @ err))
           | Inr sqlBytes \<Rightarrow>
               (let statements = splitSQLStatements sqlBytes
                in if length statements = 0
                   then ([ReadFile (sqlPath cfg)], Exit1 ''no SQL statements found in file'')
                   else ([ReadFile (sqlPath cfg)], OpenDatabase cfg statements))))"

text \<open>The state the specification calls \<^verbatim>\<open>Normal\<close>: no quote, comment or dollar tag
  is open.\<close>

definition normal :: "scanner \<Rightarrow> bool" where
  "normal s = (\<not> inSingle s \<and> \<not> inDouble s \<and> \<not> inLineComment s \<and> \<not> inBlockComment s
               \<and> dollarTag s = [])"

text \<open>The state DollarQuoted(tag) of the specification.\<close>

definition dollarQuoted :: "string \<Rightarrow> scanner \<Rightarrow> bool" where
  "dollarQuoted tag s =
     (dollarTag s = tag \<and> tag \<noteq> [] \<and> \<not> inSingle s \<and> \<not> inDouble s
      \<and> \<not> inLineComment s \<and> \<not> inBlockComment s)"

text \<open>The test for the end of a dollar-quoted body as the specification words it: the
  \<^verbatim>\<open>len(tag)-2\<close> characters after a \<^verbatim>\<open>$\<close> are the tag without its first and its last
  \<^verbatim>\<open>$\<close>.\<close>

definition specDollarClose :: "string \<Rightarrow> string \<Rightarrow> bool" where
  "specDollarClose tag ahead = (take (length tag - 2) ahead = butlast (tl tag))"

section \<open>Scripts without comments, quotes or dollar tags\<close>

text \<open>The characters of a script as the scanner reads them, and the bytes it writes for
  them.\<close>

function runes :: "string \<Rightarrow> rune list" where
  "runes s = (if s = [] then [] else fst (decodeRune s) # runes (drop (snd (decodeRune s)) s))"
  by pat_completeness auto
termination
  by (relation "measure length") (auto simp: decodeRune_width_pos)

declare runes.simps [simp del]

definition encodeRunes :: "rune list \<Rightarrow> string" where
  "encodeRunes rs = concat (map encodeRune rs)"

text \<open>The pieces of a script between its semicolons: the text before the first
  semicolon, then for each semicolon the text that follows it up to the next semicolon or
  the end.\<close>

fun segments :: "rune list \<Rightarrow> rune list list" where
  "segments [] = [[]]"
| "segments (r # rs) =
     (if r = rune_of CHR '';'' then [] # segments rs
      else (r # hd (segments rs)) # tl (segments rs))"

text \<open>Content that is only white space: nothing is left of it after trimming.\<close>

definition blank :: "rune list \<Rightarrow> bool" where
  "blank seg = (TrimSpace (encodeRunes seg) = [])"

text \<open>The count as the specification words it: the semicolons that are followed by
  non-whitespace-only content.  (The content after a semicolon is taken up to the next
  semicolon; a script without a semicolon has none to count, however the content is
  read.)\<close>

definition semicolonsFollowedByContent :: "string \<Rightarrow> nat" where
  "semicolonsFollowedByContent script =
     length (filter (\<lambda>seg. \<not> blank seg) (tl (segments (runes script))))"

text \<open>A script with no quote character, no \<^verbatim>\<open>$\<close>, no \<^verbatim>\<open>--\<close> and no
  \<^verbatim>\<open>/*\<close>.\<close>

fun plainScript :: "rune list \<Rightarrow> bool" where
  "plainScript [] = True"
| "plainScript (r # rs) =
     (r \<noteq> rune_of CHR 0x27 \<and> r \<noteq> rune_of CHR 0x22 \<and> r \<noteq> rune_of CHR ''$''
      \<and> \<not> (r = rune_of CHR ''-'' \<and> take 1 rs = [rune_of CHR ''-''])
      \<and> \<not> (r = rune_of CHR ''/'' \<and> take 1 rs = [rune_of CHR ''*''])
      \<and> plainScript rs)"

text \<open>What a flush adds to the statements for the buffer \<open>b\<close>.\<close>

definition emit :: "string \<Rightarrow> string list" where
  "emit b = (if TrimSpace b \<noteq> [] then [TrimSpace b] else [])"

section \<open>Facts about the reader and one iteration\<close>

text \<open>A rune below 0x80 is decoded from a single byte below 0x80 only.\<close>

lemma lead2: "(194::nat) \<le> b \<Longrightarrow> b < 224 \<Longrightarrow> 2 \<le> b mod 32"
proof -
  assume a: "194 \<le> b" "b < 224"
  have "b mod 32 = b - 192"
    by (rule mod_nat_eqI) (use a in auto)
  with a show ?thesis by simp
qed
lemma lead3: "(225::nat) \<le> b \<Longrightarrow> b < 240 \<Longrightarrow> 1 \<le> b mod 16"
proof -
  assume a: "225 \<le> b" "b < 240"
  have "b mod 16 = b - 224"
    by (rule mod_nat_eqI) (use a in auto)
  with a show ?thesis by simp
qed
lemma lead4: "(241::nat) \<le> b \<Longrightarrow> b \<le> 244 \<Longrightarrow> 1 \<le> b mod 8"
proof -
  assume a: "241 \<le> b" "b \<le> 244"
  have "b mod 8 = b - 240"
    by (rule mod_nat_eqI) (use a in auto)
  with a show ?thesis by simp
qed
lemma cont_hi: "(160::nat) \<le> b \<Longrightarrow> b \<le> 191 \<Longrightarrow> 32 \<le> b mod 64"
proof -
  assume a: "160 \<le> b" "b \<le> 191"
  have "b mod 64 = b - 128"
    by (rule mod_nat_eqI) (use a in auto)
  with a show ?thesis by simp
qed
lemma cont_mid: "(144::nat) \<le> b \<Longrightarrow> b \<le> 191 \<Longrightarrow> 16 \<le> b mod 64"
proof -
  assume a: "144 \<le> b" "b \<le> 191"
  have "b mod 64 = b - 128"
    by (rule mod_nat_eqI) (use a in auto)
  with a show ?thesis by simp
qed

lemma decodeRune_nonascii:
  assumes "\<not> rune_of c < (0x80::nat)"
  shows "128 \<le> fst (decodeRune (c # cs))"
proof -
  define b0 :: nat where "b0 = rune_of c"
  have nb: "\<not> b0 < 128" using assms by (simp add: b0_def)
  consider (bad) "b0 < 0xC2 \<or> 0xF4 < b0"
    | (two) "194 \<le> b0" "b0 < 224"
    | (three) "224 \<le> b0" "b0 < 240"
    | (four) "240 \<le> b0" "b0 \<le> 244"
    by linarith
  then show ?thesis
  proof cases
    case bad
    with nb show ?thesis by (auto simp: b0_def [symmetric] RuneError_def Let_def)
  next
    case two
    then have "128 \<le> (b0 mod 32) * 64" using lead2 [of b0] by simp
    with two nb show ?thesis
      by (cases cs) (simp_all add: b0_def [symmetric] RuneError_def Let_def)
  next
    case three
    have k1: "128 \<le> (b1 mod 64) * 64" if "b0 = 0xE0" "0xA0 \<le> b1" "b1 \<le> 0xBF" for b1 :: nat
      using that cont_hi [of b1] by simp
    have k2: "128 \<le> (b0 mod 16) * 4096" if "b0 \<noteq> 0xE0"
      using that three lead3 [of b0] by simp
    show ?thesis
    proof (cases cs)
      case Nil
      with three nb show ?thesis by (simp add: b0_def [symmetric] RuneError_def Let_def)
    next
      case (Cons b1 cs1)
      show ?thesis
      proof (cases cs1)
        case Nil
        with Cons three nb show ?thesis by (simp add: b0_def [symmetric] RuneError_def Let_def)
      next
        case c2: (Cons b2 cs2)
        with Cons three nb k1 [of "rune_of b1"] k2 show ?thesis
          by (auto simp add: b0_def [symmetric] RuneError_def Let_def contByte_def)
      qed
    qed
  next
    case four
    have k1: "128 \<le> (b1 mod 64) * 4096" if "b0 = 0xF0" "0x90 \<le> b1" "b1 \<le> 0xBF" for b1 :: nat
      using that cont_mid [of b1] by simp
    have k2: "128 \<le> (b0 mod 8) * 262144" if "b0 \<noteq> 0xF0"
      using that four lead4 [of b0] by simp
    show ?thesis
    proof (cases cs)
      case Nil
      with four nb show ?thesis by (simp add: b0_def [symmetric] RuneError_def Let_def)
    next
      case (Cons b1 cs1)
      show ?thesis
      proof (cases cs1)
        case Nil
        with Cons four nb show ?thesis by (simp add: b0_def [symmetric] RuneError_def Let_def)
      next
        case c2: (Cons b2 cs2)
        show ?thesis
        proof (cases cs2)
          case Nil
          with Cons c2 four nb show ?thesis by (simp add: b0_def [symmetric] RuneError_def Let_def)
        next
          case c3: (Cons b3 cs3)
          with Cons c2 four nb k1 [of "rune_of b1"] k2 show ?thesis
            by (auto simp add: b0_def [symmetric] RuneError_def Let_def contByte_def)
        qed
      qed
    qed
  qed
qed

lemma ReadRune_ascii: "rune_of c < 0x80 \<Longrightarrow> ReadRune (c # cs) = Inr (rune_of c, cs)"
  by (simp add: ReadRune_def)

lemma encodeRune_ascii: "rune_of c < 0x80 \<Longrightarrow> encodeRune (rune_of c) = [c]"
  by (simp add: encodeRune_def)

lemma ReadRune_semicolon:
  assumes "ReadRune (c # cs) = Inr (rune_of CHR '';'', rd)"
  shows "c = CHR '';''"
proof -
  have "fst (decodeRune (c # cs)) = rune_of CHR '';''"
    using assms by (simp add: ReadRune_def)
  then have "rune_of c < (0x80::nat)"
    using decodeRune_nonascii [of c cs] by (cases "rune_of c < (0x80::nat)") simp_all
  with assms have "rune_of c = (rune_of CHR '';'' :: nat)"
    by (simp only: ReadRune_ascii sum.inject prod.inject)
  then show ?thesis by (simp only: of_char_eq_iff)
qed

lemma loop_exhausts: "reader (loop s) = []"
proof (induction s rule: loop.induct)
  case (1 s)
  show ?case
  proof (cases "ReadRune (reader s)")
    case (Inl e)
    then show ?thesis by (simp add: loop.simps [of s] ReadRune_def split: if_splits)
  next
    case (Inr p)
    obtain ch rd where p: "p = (ch, rd)" by (cases p)
    from Inr p 1 show ?thesis by (simp add: loop.simps [of s])
  qed
qed

lemma statements_WriteRune [simp]: "statements (WriteRune r s) = statements s"
  by (simp add: WriteRune_def)

lemma statements_readWriteIfOk [simp]: "statements (readWriteIfOk s) = statements s"
  by (simp add: readWriteIfOk_def split: sum.splits)

lemma statements_readWriteSlash [simp]: "statements (readWriteSlash s) = statements s"
  by (simp add: readWriteSlash_def split: sum.splits)

lemma statements_readWriteRunes [simp]: "statements (readWriteRunes n s) = statements s"
  by (induction n arbitrary: s) (simp_all split: sum.splits)

lemma statements_openMarker:
  assumes "openMarker ch s = Some s'"
  shows "statements s' = statements s"
  using assms by (cases rule: openMarker_cases) simp_all


lemma statements_quotesAndBoundary:
  assumes "statements (quotesAndBoundary ch s) \<noteq> statements s"
  shows "ch = rune_of CHR '';'' \<and> \<not> inSingle s \<and> \<not> inDouble s \<and> dollarTag s = []
         \<and> \<not> inLineComment s \<and> \<not> inBlockComment s"
proof -
  let ?t = "toggleQuotes ch s"
  have st: "statements ?t = statements s" by (simp add: toggleQuotes_def)
  have b: "ch = rune_of CHR '';'' \<and> \<not> inSingle ?t \<and> \<not> inDouble ?t \<and> dollarTag ?t = []
         \<and> \<not> inLineComment ?t \<and> \<not> inBlockComment ?t"
  proof (rule ccontr)
    assume "\<not> ?thesis"
    then have "quotesAndBoundary ch s = WriteRune ch ?t"
      unfolding quotesAndBoundary_def Let_def by (simp only: if_False)
    with st assms show False by simp
  qed
  then have "toggleQuotes ch s = s" by (simp add: toggleQuotes_def)
  with b show ?thesis by simp
qed

lemma statements_body:
  assumes "statements (body ch s) \<noteq> statements s"
  shows "normal s \<and> ch = rune_of CHR '';''"
proof -
  consider (line) "inLineComment s"
    | (block) "\<not> inLineComment s" "inBlockComment s"
    | (dollar) "\<not> inLineComment s" "\<not> inBlockComment s" "dollarTag s \<noteq> []"
    | (rest) "\<not> inLineComment s" "\<not> inBlockComment s" "dollarTag s = []"
    by blast
  then show ?thesis
  proof cases
    case line
    with assms show ?thesis by (simp add: body_def Let_def split: if_splits)
  next
    case block
    with assms show ?thesis by (simp add: body_def Let_def split: if_splits)
  next
    case dollar
    with assms show ?thesis by (simp add: body_def Let_def split: if_splits)
  next
    case rest
    show ?thesis
    proof (cases "if \<not> inSingle s \<and> \<not> inDouble s then openMarker ch s else None")
      case (Some s')
      then have "openMarker ch s = Some s'" by (simp split: if_splits)
      then have "statements s' = statements s" by (rule statements_openMarker)
      with rest Some assms show ?thesis by (simp add: body_def)
    next
      case None
      with rest assms have "statements (quotesAndBoundary ch s) \<noteq> statements s"
        by (simp add: body_def)
      from statements_quotesAndBoundary [OF this] show ?thesis
        by (simp add: normal_def)
    qed
  qed
qed


lemma statements_step:
  assumes "statements (step s) \<noteq> statements s"
  shows "normal s \<and> (\<exists>rd. reader s = CHR '';'' # rd)"
proof (cases "ReadRune (reader s)")
  case (Inl e)
  with assms show ?thesis by (simp add: step_def)
next
  case (Inr p)
  obtain ch rd where p: "p = (ch, rd)" by (cases p)
  from Inr p assms have "statements (body ch (s\<lparr>reader := rd\<rparr>)) \<noteq> statements (s\<lparr>reader := rd\<rparr>)"
    by (simp add: step_def)
  from statements_body [OF this] have n: "normal s" and ch: "ch = rune_of CHR '';''"
    by (simp_all add: normal_def)
  from Inr obtain c cs where r: "reader s = c # cs"
    by (cases "reader s") (simp_all add: ReadRune_def)
  from Inr p ch r have "ReadRune (c # cs) = Inr (rune_of CHR '';'', rd)" by simp
  then have "c = CHR '';''" by (rule ReadRune_semicolon)
  with n r show ?thesis by simp
qed

lemma step_semicolon:
  assumes "reader s = CHR '';'' # rd"
  shows "step s =
     (if normal s
      then s\<lparr>reader := rd, sb := [],
             statements := (if TrimSpace (sb s) \<noteq> [] then statements s @ [TrimSpace (sb s)]
                            else statements s)\<rparr>
      else s\<lparr>reader := rd, sb := sb s @ '';''\<rparr>)"
proof -
  have rr: "ReadRune (reader s) = Inr (rune_of CHR '';'', rd)"
    using assms by (simp add: ReadRune_def)
  have enc: "encodeRune (rune_of CHR '';'') = '';''"
    by (simp add: encodeRune_def char_of_eq_iff)
  consider (line) "inLineComment s"
    | (block) "\<not> inLineComment s" "inBlockComment s"
    | (dollar) "\<not> inLineComment s" "\<not> inBlockComment s" "dollarTag s \<noteq> []"
    | (quoted) "\<not> inLineComment s" "\<not> inBlockComment s" "dollarTag s = []"
        "inSingle s \<or> inDouble s"
    | (norm) "normal s"
    unfolding normal_def by blast
  then show ?thesis
  proof cases
    case line
    then show ?thesis using rr enc by (simp add: step_def body_def normal_def WriteRune_def)
  next
    case block
    then show ?thesis using rr enc by (simp add: step_def body_def normal_def WriteRune_def)
  next
    case dollar
    then show ?thesis using rr enc by (simp add: step_def body_def normal_def WriteRune_def)
  next
    case quoted
    then show ?thesis using rr enc
      by (auto simp add: step_def body_def normal_def WriteRune_def quotesAndBoundary_def
          toggleQuotes_def)
  next
    case norm
    then show ?thesis using rr enc
      by (simp add: step_def body_def normal_def WriteRune_def quotesAndBoundary_def
          toggleQuotes_def openMarker_def flush_def Let_def)
  qed
qed

lemma validate_rejects:
  "(\<exists>e. validate c = Inl e) \<longleftrightarrow>
     engine c = [] \<or> host c = [] \<or> dbname c = [] \<or> sqlPath c = []
     \<or> \<not> (ToLower (engine c) = ''oracle'' \<or> ToLower (engine c) = ''sqlserver''
            \<or> ToLower (engine c) = ''postgres'')"
  by (simp add: validate_def)

lemma validate_accepts:
  assumes "validate c = Inr c'"
  shows "c' = c\<lparr>port := (if port c = 0 then defaultPort (engine c) else port c)\<rparr>"
  using assms by (auto simp: validate_def split: if_splits)

text \<open>Consuming ASCII bytes rune by rune copies them.\<close>

lemma readWriteRunes_ascii:
  assumes "\<forall>c\<in>set xs. rune_of c < (0x80::nat)" "reader s = xs @ rest"
  shows "readWriteRunes (length xs) s = s\<lparr>reader := rest, sb := sb s @ xs\<rparr>"
  using assms
proof (induction xs arbitrary: s)
  case Nil
  then show ?case by simp
next
  case (Cons x xs)
  from Cons.prems have x: "rune_of x < (0x80::nat)" by simp
  from Cons.prems have rr: "ReadRune (reader s) = Inr (rune_of x, xs @ rest)"
    by (simp add: ReadRune_ascii x)
  let ?s = "WriteRune (rune_of x) (s\<lparr>reader := xs @ rest\<rparr>)"
  have "readWriteRunes (length (x # xs)) s = readWriteRunes (length xs) ?s"
    using rr by simp
  also have "\<dots> = ?s\<lparr>reader := rest, sb := sb ?s @ xs\<rparr>"
    using Cons.prems by (intro Cons.IH) simp_all
  also have "\<dots> = s\<lparr>reader := rest, sb := sb s @ x # xs\<rparr>"
    using x by (simp add: WriteRune_def encodeRune_ascii)
  finally show ?case .
qed

lemma step_dollarQuoted:
  assumes dq: "dollarQuoted tag s" and ascii: "\<forall>c\<in>set tag. rune_of c < (0x80::nat)"
    and rr: "ReadRune (reader s) = Inr (ch, rd)"
  shows "step s =
     (if ch = rune_of CHR ''$'' \<and> take (length tag - 1) rd = tl tag
      then s\<lparr>reader := drop (length tag - 1) rd, sb := sb s @ ''$'' @ tl tag, dollarTag := []\<rparr>
      else s\<lparr>reader := rd, sb := sb s @ encodeRune ch\<rparr>)"
proof (cases "ch = rune_of CHR ''$'' \<and> take (length tag - 1) rd = tl tag")
  case False
  with dq rr show ?thesis
    by (auto simp add: step_def body_def dollarQuoted_def WriteRune_def Peek_def Let_def)
next
  case True
  let ?s = "WriteRune ch (s\<lparr>reader := rd\<rparr>)"
  have enc: "encodeRune ch = ''$''"
    using True by (simp add: encodeRune_def char_of_eq_iff)
  have a: "\<forall>c\<in>set (tl tag). rune_of c < (0x80::nat)"
    using ascii dq by (cases tag) (simp_all add: dollarQuoted_def)
  have r: "reader ?s = tl tag @ drop (length tag - 1) rd"
    using True append_take_drop_id [of "length tag - 1" rd] by simp
  have "readWriteRunes (length (tl tag)) ?s
        = ?s\<lparr>reader := drop (length tag - 1) rd, sb := sb ?s @ tl tag\<rparr>"
    using a r by (rule readWriteRunes_ascii)
  then have "readWriteRunes (length tag - 1) ?s
        = ?s\<lparr>reader := drop (length tag - 1) rd, sb := sb ?s @ tl tag\<rparr>"
    by simp
  with dq rr True enc show ?thesis
    by (simp add: step_def body_def dollarQuoted_def WriteRune_def Peek_def Let_def)
qed

lemma step_dash:
  assumes "normal s" "reader s = CHR ''-'' # rd"
  shows "step s =
     (if take 2 rd = ''- '' \<or> take 2 rd = ''--''
      then s\<lparr>reader := tl rd, sb := sb s @ ''--'', inLineComment := True\<rparr>
      else s\<lparr>reader := rd, sb := sb s @ ''-''\<rparr>)"
proof -
  let ?s = "s\<lparr>reader := rd\<rparr>"
  have rr: "ReadRune (reader s) = Inr (rune_of CHR ''-'', rd)"
    using assms(2) by (simp add: ReadRune_def)
  have enc: "encodeRune (rune_of CHR ''-'') = ''-''"
    by (simp add: encodeRune_def char_of_def bit_0)
  have st: "step s = (case openMarker (rune_of CHR ''-'') ?s of
                        Some s' \<Rightarrow> s' | None \<Rightarrow> quotesAndBoundary (rune_of CHR ''-'') ?s)"
    using assms(1) rr by (simp add: step_def body_def normal_def cong: option.case_cong)
  show ?thesis
  proof (cases "take 2 rd = ''- '' \<or> take 2 rd = ''--''")
    case True
    then obtain rd' where rd: "rd = CHR ''-'' # rd'" by (cases rd) auto
    have "ReadRune rd = Inr (rune_of CHR ''-'', rd')"
      by (simp add: rd ReadRune_def)
    then have "readWriteIfOk (WriteRune (rune_of CHR ''-'') ?s) = s\<lparr>reader := rd', sb := sb s @ ''--''\<rparr>"
      using enc by (simp add: readWriteIfOk_def WriteRune_def)
    moreover have "next 2 rd = ''- '' \<or> next 2 rd = ''--''"
      using True by (simp add: next_def Peek_def)
    ultimately have "openMarker (rune_of CHR ''-'') ?s
        = Some (s\<lparr>reader := rd', sb := sb s @ ''--'', inLineComment := True\<rparr>)"
      by (simp add: openMarker_def)
    with st True rd show ?thesis by simp
  next
    case False
    then have "\<not> (next 2 rd = ''- '' \<or> next 2 rd = ''--'')"
      by (simp add: next_def Peek_def)
    then have "openMarker (rune_of CHR ''-'') ?s = None"
      by (simp add: openMarker_def)
    moreover have "quotesAndBoundary (rune_of CHR ''-'') ?s = s\<lparr>reader := rd, sb := sb s @ ''-''\<rparr>"
      using assms(1) enc by (simp add: quotesAndBoundary_def toggleQuotes_def normal_def WriteRune_def)
    ultimately show ?thesis using st False by simp
  qed
qed

text \<open>Rewrite rules that evaluate the splitter on a given input: the general ones, and
  faster ones for an input whose bytes are all below 0x80.\<close>

lemma ReadRune_Nil: "ReadRune [] = Inl EOF"
  by (simp add: ReadRune_def)

lemma loop_Nil: "reader s = [] \<Longrightarrow> loop s = s"
  by (simp add: loop.simps [of s] ReadRune_def)

lemma loop_Cons:
  "reader s = c # cs \<Longrightarrow> rune_of c < 0x80 \<Longrightarrow>
   loop s = loop (body (rune_of c) (s\<lparr>reader := cs\<rparr>))"
  by (simp add: loop.simps [of s] ReadRune_def)

lemmas eval_common =
  TrimSpace_def IsSpace_def DecodeLastRune_def lastRuneAt_def RuneStart_def RuneError_def
  contByte_def Let_def splitSQLStatements_def start_def finish_def Peek_def
  next_def HasPrefix_def body_def openMarker_def quotesAndBoundary_def toggleQuotes_def
  flush_def WriteRune_def encodeRune_def readWriteIfOk_def readWriteSlash_def step_def
  char_of_def bit_0 scanTag.simps TrimLeftSpace.simps TrimRightSpace.simps

lemmas eval_defs = eval_common ReadRune_def loop.simps

lemmas eval_ascii = eval_common ReadRune_ascii ReadRune_Nil loop_Nil loop_Cons

text \<open>A script without markers keeps the scanner in the Normal state: every semicolon
  flushes the buffer.\<close>

lemma encodeRunes_Nil [simp]: "encodeRunes [] = []"
  by (simp add: encodeRunes_def)

lemma encodeRunes_Cons [simp]: "encodeRunes (r # rs) = encodeRune r @ encodeRunes rs"
  by (simp add: encodeRunes_def)

lemma segments_nonempty [simp]: "segments r \<noteq> []"
  by (induction r) simp_all

lemma concat_emit_segments:
  "concat (map (\<lambda>seg. emit (encodeRunes seg)) (segments r)) =
     emit (encodeRunes (hd (segments r)))
     @ concat (map (\<lambda>seg. emit (encodeRunes seg)) (tl (segments r)))"
  by (cases "segments r") simp_all

lemma runes_Nil_iff: "runes s = [] \<longleftrightarrow> s = []"
  by (simp add: runes.simps [of s])

lemma runes_Cons:
  assumes "runes s = r # rs"
  shows "ReadRune s = Inr (r, drop (snd (decodeRune s)) s) \<and> rs = runes (drop (snd (decodeRune s)) s)"
proof (cases "s = []")
  case True
  with assms show ?thesis by (simp add: runes.simps [of "[]"])
next
  case False
  with assms show ?thesis by (simp add: runes.simps [of s] ReadRune_def)
qed

lemma runes_first_byte:
  "take 1 rd = [c] \<Longrightarrow> rune_of c < (0x80::nat) \<Longrightarrow> take 1 (runes rd) = [rune_of c]"
  by (cases rd) (simp_all add: runes.simps [of "_ # _"])

lemma openMarker_plain:
  assumes "\<not> (r = rune_of CHR ''-'' \<and> take 1 (runes (reader s)) = [rune_of CHR ''-''])"
    and "\<not> (r = rune_of CHR ''/'' \<and> take 1 (runes (reader s)) = [rune_of CHR ''*''])"
    and "r \<noteq> rune_of CHR ''$''"
  shows "openMarker r s = None"
proof -
  have two: "take 1 rd = ''-''" if "next 2 rd = ''- '' \<or> next 2 rd = ''--''" for rd
    using that by (cases rd) (auto simp: next_def Peek_def)
  have one: "take 1 rd = ''*''" if "HasPrefix (next 1 rd) ''*''" for rd
    using that by (cases rd) (auto simp: HasPrefix_def next_def Peek_def)
  have a: "\<not> (r = rune_of CHR ''-'' \<and> (next 2 (reader s) = ''- '' \<or> next 2 (reader s) = ''--''))"
    using assms(1) two [of "reader s"] runes_first_byte [of "reader s" "CHR ''-''"] by auto
  have b: "\<not> (r = rune_of CHR ''/'' \<and> HasPrefix (next 1 (reader s)) ''*'')"
    using assms(2) one [of "reader s"] runes_first_byte [of "reader s" "CHR ''*''"] by auto
  show ?thesis
    using a b assms(3) unfolding openMarker_def Let_def by (simp only: if_False)
qed

lemma quotesAndBoundary_plain:
  assumes "normal s" "r \<noteq> rune_of CHR 0x27" "r \<noteq> rune_of CHR 0x22"
  shows "quotesAndBoundary r s =
           (if r = rune_of CHR '';'' then flush s else s\<lparr>sb := sb s @ encodeRune r\<rparr>)"
  using assms unfolding quotesAndBoundary_def toggleQuotes_def Let_def normal_def
  by (simp add: WriteRune_def)

lemma body_plain:
  assumes "normal s" "r \<noteq> rune_of CHR 0x27" "r \<noteq> rune_of CHR 0x22"
    "\<not> (r = rune_of CHR ''-'' \<and> take 1 (runes (reader s)) = [rune_of CHR ''-''])"
    "\<not> (r = rune_of CHR ''/'' \<and> take 1 (runes (reader s)) = [rune_of CHR ''*''])"
    "r \<noteq> rune_of CHR ''$''"
  shows "body r s = (if r = rune_of CHR '';'' then flush s else s\<lparr>sb := sb s @ encodeRune r\<rparr>)"
proof -
  have "openMarker r s = None" using assms(4-6) by (rule openMarker_plain)
  moreover have "quotesAndBoundary r s =
           (if r = rune_of CHR '';'' then flush s else s\<lparr>sb := sb s @ encodeRune r\<rparr>)"
    using assms(1-3) by (rule quotesAndBoundary_plain)
  ultimately show ?thesis using assms(1) by (simp add: body_def normal_def)
qed


lemma loop_plain:
  assumes "normal s" "plainScript (runes (reader s))"
  shows "finish (loop s) =
           statements s @ emit (sb s @ encodeRunes (hd (segments (runes (reader s)))))
           @ concat (map (\<lambda>seg. emit (encodeRunes seg)) (tl (segments (runes (reader s)))))"
  using assms
proof (induction "runes (reader s)" arbitrary: s)
  case Nil
  from Nil.hyps [symmetric] have "reader s = []" by (simp add: runes_Nil_iff)
  then show ?case
    by (simp add: loop_Nil finish_def emit_def Let_def runes.simps [of "[]"])
next
  case (Cons r rs)
  let ?rd = "drop (snd (decodeRune (reader s))) (reader s)"
  let ?s = "s\<lparr>reader := ?rd\<rparr>"
  from runes_Cons [OF Cons.hyps(2) [symmetric]]
  have rr: "ReadRune (reader s) = Inr (r, ?rd)" and rs: "rs = runes ?rd" by simp_all
  from Cons.hyps(2) [symmetric] Cons.prems(2) rs
  have p: "r \<noteq> rune_of CHR 0x27" "r \<noteq> rune_of CHR 0x22" "r \<noteq> rune_of CHR ''$''"
    "\<not> (r = rune_of CHR ''-'' \<and> take 1 (runes ?rd) = [rune_of CHR ''-''])"
    "\<not> (r = rune_of CHR ''/'' \<and> take 1 (runes ?rd) = [rune_of CHR ''*''])"
    "plainScript (runes ?rd)"
    by simp_all
  have n: "normal ?s" using Cons.prems(1) by (simp add: normal_def)
  have l: "loop s = loop (body r ?s)"
    using rr by (simp add: loop.simps [of s])
  have b: "body r ?s = (if r = rune_of CHR '';'' then flush ?s else ?s\<lparr>sb := sb ?s @ encodeRune r\<rparr>)"
    using n p by (intro body_plain) simp_all
  have seg: "segments (runes (reader s)) =
      (if r = rune_of CHR '';'' then [] # segments (runes ?rd)
       else (r # hd (segments (runes ?rd))) # tl (segments (runes ?rd)))"
    using Cons.hyps(2) [symmetric] rs by simp
  show ?case
  proof (cases "r = rune_of CHR '';''")
    case True
    let ?t = "flush ?s"
    have "finish (loop ?t) =
           statements ?t @ emit (sb ?t @ encodeRunes (hd (segments (runes (reader ?t)))))
           @ concat (map (\<lambda>seg. emit (encodeRunes seg)) (tl (segments (runes (reader ?t)))))"
      using n p(6) rs by (intro Cons.hyps(1)) (simp_all add: flush_def normal_def Let_def)
    moreover have "statements ?t = statements s @ emit (sb s)" "sb ?t = []" "reader ?t = ?rd"
      by (simp_all add: flush_def emit_def Let_def)
    ultimately show ?thesis
      using l b True seg by (simp add: concat_emit_segments)
  next
    case False
    let ?t = "?s\<lparr>sb := sb ?s @ encodeRune r\<rparr>"
    have "finish (loop ?t) =
           statements ?t @ emit (sb ?t @ encodeRunes (hd (segments (runes (reader ?t)))))
           @ concat (map (\<lambda>seg. emit (encodeRunes seg)) (tl (segments (runes (reader ?t)))))"
      using n p(6) rs by (intro Cons.hyps(1)) (simp_all add: normal_def)
    with l b False seg show ?thesis
      by simp
  qed
qed

lemma length_concat_emit:
  "length (concat (map (\<lambda>seg. emit (encodeRunes seg)) segs))
     = length (filter (\<lambda>seg. \<not> blank seg) segs)"
  by (induction segs) (simp_all add: emit_def blank_def)

lemma concat_emit:
  "concat (map (\<lambda>seg. emit (encodeRunes seg)) segs)
     = map (\<lambda>seg. TrimSpace (encodeRunes seg)) (filter (\<lambda>seg. \<not> blank seg) segs)"
  by (induction segs) (simp_all add: emit_def blank_def)

lemma split_plain:
  assumes "plainScript (runes script)"
  shows "splitSQLStatements script
         = concat (map (\<lambda>seg. emit (encodeRunes seg)) (segments (runes script)))"
proof -
  have "finish (loop (start script)) =
          statements (start script)
          @ emit (sb (start script) @ encodeRunes (hd (segments (runes (reader (start script))))))
          @ concat (map (\<lambda>seg. emit (encodeRunes seg))
                      (tl (segments (runes (reader (start script))))))"
    using assms by (intro loop_plain) (simp_all add: start_def normal_def)
  then show ?thesis
    by (simp add: splitSQLStatements_def start_def concat_emit_segments)
qed

lemma runes_Nil: "runes [] = []"
  by (simp add: runes.simps [of "[]"])

lemma runes_ascii: "rune_of c < (0x80::nat) \<Longrightarrow> runes (c # cs) = rune_of c # runes cs"
  by (simp add: runes.simps [of "c # cs"])

section \<open>Facts about \<^verbatim>\<open>TrimSpace\<close>\<close>

text \<open>A rune that is not \<^verbatim>\<open>RuneError\<close> is decoded from its own bytes, whatever
  follows them.\<close>

lemma not_space_RuneError: "\<not> IsSpace RuneError"
  by (simp add: IsSpace_def RuneError_def)

lemma decodeRune_append:
  assumes "fst (decodeRune u) \<noteq> RuneError"
  shows "decodeRune (u @ w) = decodeRune u"
proof (cases u)
  case Nil
  with assms show ?thesis by simp
next
  case (Cons p0 p)
  note u = Cons
  show ?thesis
  proof (cases p)
    case Nil
    with u assms show ?thesis by (simp add: Let_def split: if_splits)
  next
    case (Cons b1 p1)
    note p = Cons
    show ?thesis
    proof (cases p1)
      case Nil
      with u p assms show ?thesis by (simp add: Let_def split: if_splits)
    next
      case (Cons b2 p2)
      note p1 = Cons
      show ?thesis
      proof (cases p2)
        case Nil
        with u p p1 assms show ?thesis by (simp add: Let_def split: if_splits)
      next
        case (Cons b3 p3)
        with u p p1 show ?thesis by (simp add: Let_def)
      qed
    qed
  qed
qed

lemma TrimLeftSpace_suffix: "\<exists>p. s = p @ TrimLeftSpace s"
proof (induction s rule: TrimLeftSpace.induct)
  case (1 s)
  show ?case
  proof (cases "s \<noteq> [] \<and> IsSpace (fst (decodeRune s))")
    case True
    with 1 obtain p where "drop (snd (decodeRune s)) s = p @ TrimLeftSpace (drop (snd (decodeRune s)) s)"
      by blast
    then have "s = (take (snd (decodeRune s)) s @ p) @ TrimLeftSpace (drop (snd (decodeRune s)) s)"
      by (metis append_assoc append_take_drop_id)
    with True show ?thesis by (simp add: TrimLeftSpace.simps [of s] del: append_assoc) blast
  next
    case False
    then have "TrimLeftSpace s = s" by (auto simp: TrimLeftSpace.simps [of s])
    then show ?thesis by simp
  qed
qed

lemma TrimLeftSpace_first:
  "TrimLeftSpace s \<noteq> [] \<Longrightarrow> \<not> IsSpace (fst (decodeRune (TrimLeftSpace s)))"
proof (induction s rule: TrimLeftSpace.induct)
  case (1 s)
  show ?case
  proof (cases "s \<noteq> [] \<and> IsSpace (fst (decodeRune s))")
    case True
    then have e: "TrimLeftSpace s = TrimLeftSpace (drop (snd (decodeRune s)) s)"
      by (simp add: TrimLeftSpace.simps [of s])
    with 1 True show ?thesis by simp
  next
    case False
    then have e: "TrimLeftSpace s = s" by (auto simp: TrimLeftSpace.simps [of s])
    with False 1(2) show ?thesis by auto
  qed
qed

lemma TrimRightSpace_prefix: "\<exists>q. s = TrimRightSpace s @ q"
proof (induction s rule: TrimRightSpace.induct)
  case (1 s)
  show ?case
  proof (cases "s \<noteq> [] \<and> IsSpace (fst (DecodeLastRune s))")
    case True
    let ?t = "take (length s - snd (DecodeLastRune s)) s"
    from 1 True obtain q where "?t = TrimRightSpace ?t @ q" by blast
    then have "s = TrimRightSpace ?t @ (q @ drop (length s - snd (DecodeLastRune s)) s)"
      by (metis append_assoc append_take_drop_id)
    with True show ?thesis by (simp add: TrimRightSpace.simps [of s]) blast
  next
    case False
    then have "TrimRightSpace s = s" by (auto simp: TrimRightSpace.simps [of s])
    then show ?thesis by simp
  qed
qed

lemma TrimRightSpace_last:
  "TrimRightSpace s \<noteq> [] \<Longrightarrow> \<not> IsSpace (fst (DecodeLastRune (TrimRightSpace s)))"
proof (induction s rule: TrimRightSpace.induct)
  case (1 s)
  show ?case
  proof (cases "s \<noteq> [] \<and> IsSpace (fst (DecodeLastRune s))")
    case True
    then have e: "TrimRightSpace s = TrimRightSpace (take (length s - snd (DecodeLastRune s)) s)"
      by (simp add: TrimRightSpace.simps [of s])
    with 1 True show ?thesis by simp
  next
    case False
    then have e: "TrimRightSpace s = s" by (auto simp: TrimRightSpace.simps [of s])
    with False 1(2) show ?thesis by auto
  qed
qed

lemma TrimSpace_ends:
  assumes "TrimSpace b \<noteq> []"
  shows "\<not> IsSpace (fst (decodeRune (TrimSpace b)))"
    and "\<not> IsSpace (fst (DecodeLastRune (TrimSpace b)))"
proof -
  let ?t = "TrimLeftSpace b"
  from assms have u: "TrimRightSpace ?t \<noteq> []" by (simp add: TrimSpace_def)
  then show "\<not> IsSpace (fst (DecodeLastRune (TrimSpace b)))"
    unfolding TrimSpace_def by (rule TrimRightSpace_last)
  obtain q where q: "?t = TrimRightSpace ?t @ q" using TrimRightSpace_prefix by blast
  with u have t: "?t \<noteq> []" by auto
  show "\<not> IsSpace (fst (decodeRune (TrimSpace b)))"
  proof
    assume sp: "IsSpace (fst (decodeRune (TrimSpace b)))"
    then have "fst (decodeRune (TrimRightSpace ?t)) \<noteq> RuneError"
      using not_space_RuneError by (auto simp: TrimSpace_def)
    then have "decodeRune (TrimRightSpace ?t @ q) = decodeRune (TrimRightSpace ?t)"
      by (rule decodeRune_append)
    with q sp have "IsSpace (fst (decodeRune ?t))" by (simp add: TrimSpace_def)
    with TrimLeftSpace_first [OF t] show False by simp
  qed
qed

lemma decodeRune_width_le:
  assumes "fst (decodeRune u) \<noteq> RuneError"
  shows "snd (decodeRune u) \<le> length u"
proof (cases u)
  case Nil
  with assms show ?thesis by simp
next
  case (Cons p0 p)
  note u = Cons
  show ?thesis
  proof (cases p)
    case Nil
    with u assms show ?thesis by (simp add: Let_def split: if_splits)
  next
    case (Cons b1 p1)
    note p = Cons
    show ?thesis
    proof (cases p1)
      case Nil
      with u p assms show ?thesis by (simp add: Let_def split: if_splits)
    next
      case (Cons b2 p2)
      note p1 = Cons
      show ?thesis
      proof (cases p2)
        case Nil
        with u p p1 assms show ?thesis by (simp add: Let_def split: if_splits)
      next
        case (Cons b3 p3)
        with u p p1 show ?thesis by (simp add: Let_def)
      qed
    qed
  qed
qed

lemma decodeRune_take:
  assumes "fst (decodeRune u) \<noteq> RuneError"
  shows "decodeRune (take (snd (decodeRune u)) u) = decodeRune u"
proof (cases u)
  case Nil
  with assms show ?thesis by simp
next
  case (Cons p0 p)
  note u = Cons
  show ?thesis
  proof (cases p)
    case Nil
    with u assms show ?thesis by (simp add: Let_def split: if_splits)
  next
    case (Cons b1 p1)
    note p = Cons
    show ?thesis
    proof (cases p1)
      case Nil
      with u p assms show ?thesis by (simp add: Let_def split: if_splits)
    next
      case (Cons b2 p2)
      note p1 = Cons
      show ?thesis
      proof (cases p2)
        case Nil
        with u p p1 assms show ?thesis by (simp add: Let_def split: if_splits)
      next
        case (Cons b3 p3)
        with u p p1 assms show ?thesis by (simp add: Let_def split: if_splits)
      qed
    qed
  qed
qed


lemma TrimLeftSpace_Nil [simp]: "TrimLeftSpace [] = []"
  by (simp add: TrimLeftSpace.simps [of "[]"])

lemma TrimRightSpace_Nil [simp]: "TrimRightSpace [] = []"
  by (simp add: TrimRightSpace.simps [of "[]"])

lemma TrimLeftSpace_space:
  assumes "s \<noteq> []" "IsSpace (fst (decodeRune s))"
  shows "TrimLeftSpace s = TrimLeftSpace (drop (snd (decodeRune s)) s)"
  using assms by (simp add: TrimLeftSpace.simps [of s])

lemma TrimLeftSpace_not_space:
  assumes "\<not> IsSpace (fst (decodeRune s))"
  shows "TrimLeftSpace s = s"
  using assms by (cases "s = []") (simp_all add: TrimLeftSpace.simps [of s])

text \<open>White space in front of any text is trimmed away.\<close>

lemma TrimLeftSpace_append:
  "TrimLeftSpace a = [] \<Longrightarrow> TrimLeftSpace (a @ z) = TrimLeftSpace z"
proof (induction a rule: TrimLeftSpace.induct)
  case (1 a)
  show ?case
  proof (cases "a = []")
    case True
    then show ?thesis by simp
  next
    case False
    have sp: "IsSpace (fst (decodeRune a))"
    proof (rule ccontr)
      assume "\<not> IsSpace (fst (decodeRune a))"
      then have "TrimLeftSpace a = a" by (rule TrimLeftSpace_not_space)
      with 1(2) False show False by simp
    qed
    then have ne: "fst (decodeRune a) \<noteq> RuneError" using not_space_RuneError by auto
    let ?n = "snd (decodeRune a)"
    have n: "?n \<le> length a" using ne by (rule decodeRune_width_le)
    have d: "decodeRune (a @ z) = decodeRune a" using ne by (rule decodeRune_append)
    have "TrimLeftSpace (drop ?n a) = []"
      using 1(2) False sp by (simp add: TrimLeftSpace_space)
    with 1(1) False sp have "TrimLeftSpace (drop ?n a @ z) = TrimLeftSpace z" by simp
    moreover have "TrimLeftSpace (a @ z) = TrimLeftSpace (drop ?n (a @ z))"
      using TrimLeftSpace_space [of "a @ z"] False sp d by simp
    moreover have "drop ?n (a @ z) = drop ?n a @ z" using n by simp
    ultimately show ?thesis using d by simp
  qed
qed

lemma TrimLeftSpace_removed: "\<exists>p. s = p @ TrimLeftSpace s \<and> TrimLeftSpace p = []"
proof (induction s rule: TrimLeftSpace.induct)
  case (1 s)
  show ?case
  proof (cases "s \<noteq> [] \<and> IsSpace (fst (decodeRune s))")
    case True
    let ?n = "snd (decodeRune s)"
    from True have ne: "fst (decodeRune s) \<noteq> RuneError" using not_space_RuneError by auto
    from 1 True obtain p where p: "drop ?n s = p @ TrimLeftSpace (drop ?n s)"
      and e: "TrimLeftSpace p = []" by blast
    have n: "?n \<le> length s" using ne by (rule decodeRune_width_le)
    let ?z = "take ?n s"
    have dz: "decodeRune ?z = decodeRune s" using ne by (rule decodeRune_take)
    then have "decodeRune (?z @ p) = decodeRune s"
      using ne decodeRune_append [of ?z p] by simp
    moreover have "?z \<noteq> []" using True n decodeRune_width_pos [of s] by auto
    ultimately have "TrimLeftSpace (?z @ p) = TrimLeftSpace (drop ?n (?z @ p))"
      using True TrimLeftSpace_space [of "?z @ p"] by simp
    then have "TrimLeftSpace (?z @ p) = []" using n e by simp
    moreover have "s = (?z @ p) @ TrimLeftSpace s"
      using p True by (simp add: TrimLeftSpace_space)
    ultimately show ?thesis by blast
  next
    case False
    then have "TrimLeftSpace s = s"
      by (cases "s = []") (simp_all add: TrimLeftSpace_not_space)
    then show ?thesis by simp
  qed
qed

lemma lastRuneAt_space:
  assumes "IsSpace (fst (lastRuneAt s k))"
  shows "snd (lastRuneAt s k) = k \<and> decodeRune (drop (length s - k) s) = lastRuneAt s k"
  using assms not_space_RuneError
  by (auto simp: lastRuneAt_def Let_def split: prod.splits if_splits)

lemma drop_last_one:
  assumes "s \<noteq> []"
  shows "drop (length s - 1) s = [last s]"
proof -
  have "drop (length (butlast s)) (butlast s @ [last s]) = [last s]" by simp
  with assms show ?thesis by simp
qed

lemma DecodeLastRune_space:
  assumes "s \<noteq> []" "IsSpace (fst (DecodeLastRune s))"
  shows "snd (DecodeLastRune s) \<le> length s
         \<and> decodeRune (drop (length s - snd (DecodeLastRune s)) s) = DecodeLastRune s"
proof (cases "rune_of (last s) < (0x80::nat)")
  case True
  with assms(1) have e: "DecodeLastRune s = (rune_of (last s), 1)"
    by (simp add: DecodeLastRune_def)
  have d: "decodeRune [last s] = (rune_of (last s), 1)" using True by (simp add: Let_def)
  have l: "1 \<le> length s" using assms(1) by (cases s) simp_all
  have "drop (length s - 1) s = [last s]" using assms(1) by (rule drop_last_one)
  with e d l show ?thesis by (simp del: decodeRune.simps)
next
  case False
  note hi = this
  have "\<exists>k. DecodeLastRune s = lastRuneAt s k \<and> k \<le> length s"
  proof (cases "2 \<le> length s \<and> RuneStart (s ! (length s - 2))")
    case True
    with hi assms(1) have "DecodeLastRune s = lastRuneAt s 2" by (simp add: DecodeLastRune_def)
    with True show ?thesis by blast
  next
    case c2: False
    show ?thesis
    proof (cases "3 \<le> length s \<and> RuneStart (s ! (length s - 3))")
      case True
      with hi c2 assms(1) have "DecodeLastRune s = lastRuneAt s 3"
        by (simp add: DecodeLastRune_def)
      with True show ?thesis by blast
    next
      case c3: False
      show ?thesis
      proof (cases "4 \<le> length s \<and> RuneStart (s ! (length s - 4))")
        case True
        with hi c2 c3 assms(1) have "DecodeLastRune s = lastRuneAt s 4"
          by (simp add: DecodeLastRune_def)
        with True show ?thesis by blast
      next
        case False
        with hi c2 c3 assms(1) have "DecodeLastRune s = lastRuneAt s (min (length s) 5)"
          by (auto simp add: DecodeLastRune_def)
        moreover have "min (length s) 5 \<le> length s" by simp
        ultimately show ?thesis by blast
      qed
    qed
  qed
  then obtain k where k: "DecodeLastRune s = lastRuneAt s k" "k \<le> length s" by blast
  with assms(2) lastRuneAt_space [of s k] show ?thesis by simp
qed

lemma TrimRightSpace_removed: "\<exists>q. s = TrimRightSpace s @ q \<and> TrimLeftSpace q = []"
proof (induction s rule: TrimRightSpace.induct)
  case (1 s)
  show ?case
  proof (cases "s \<noteq> [] \<and> IsSpace (fst (DecodeLastRune s))")
    case True
    let ?n = "snd (DecodeLastRune s)"
    let ?t = "take (length s - ?n) s"
    let ?z = "drop (length s - ?n) s"
    from True DecodeLastRune_space [of s]
    have n: "?n \<le> length s" and dz: "decodeRune ?z = DecodeLastRune s" by simp_all
    have pos: "0 < ?n" using True by (simp add: DecodeLastRune_width_pos)
    from 1 True obtain q where q: "?t = TrimRightSpace ?t @ q" and e: "TrimLeftSpace q = []"
      by blast
    have lz: "length ?z = ?n" using n by simp
    have "?z \<noteq> []" using lz pos by auto
    moreover have "IsSpace (fst (decodeRune ?z))" using True dz by simp
    ultimately have "TrimLeftSpace ?z = TrimLeftSpace (drop (snd (decodeRune ?z)) ?z)"
      by (rule TrimLeftSpace_space)
    also have "drop (snd (decodeRune ?z)) ?z = []" using dz lz by simp
    finally have "TrimLeftSpace ?z = []" by simp
    with e have "TrimLeftSpace (q @ ?z) = []" by (simp add: TrimLeftSpace_append)
    moreover have "s = TrimRightSpace ?t @ (q @ ?z)"
      using q by (metis append_assoc append_take_drop_id)
    moreover have "TrimRightSpace s = TrimRightSpace ?t"
      using True by (simp add: TrimRightSpace.simps [of s])
    ultimately show ?thesis by metis
  next
    case False
    then have "TrimRightSpace s = s"
      by (cases "s = []") (simp_all add: TrimRightSpace.simps [of s])
    then show ?thesis by simp
  qed
qed

lemma TrimSpace_blank_ends:
  "\<exists>p q. b = p @ TrimSpace b @ q \<and> TrimSpace p = [] \<and> TrimSpace q = []"
proof -
  obtain p where p: "b = p @ TrimLeftSpace b" "TrimLeftSpace p = []"
    using TrimLeftSpace_removed by blast
  obtain q where q: "TrimLeftSpace b = TrimRightSpace (TrimLeftSpace b) @ q" "TrimLeftSpace q = []"
    using TrimRightSpace_removed by blast
  have "b = p @ TrimSpace b @ q"
    unfolding TrimSpace_def using p(1) q(1) by metis
  moreover have "TrimSpace p = []" "TrimSpace q = []"
    using p(2) q(2) by (simp_all add: TrimSpace_def)
  ultimately show ?thesis by blast
qed

section \<open>The claims\<close>

text \<open>
  C1.  The claim: a semicolon is a statement boundary exactly when the scanner is in the
  Normal state; inside a quoted literal, a comment or a dollar-quoted body it is appended
  and never splits.  The first script has a semicolon inside a single-quoted and a
  double-quoted literal, a block comment, a dollar-quoted body and a line comment, and
  splits at the other four.  In \<^verbatim>\<open>--a;b\<close> the semicolon stands in a line comment and
  splits all the same, since the comment is not opened.  In the third script a semicolon
  follows the closing tag of a dollar-quoted body whose tag has a two-byte letter (U+00E9,
  the bytes C3 A9); the loop that consumes the tag reads one rune too many, the
  semicolon, and appends it: the scanner is Normal there and there is no boundary.
\<close>

theorem semicolon_boundary_examples:
  "splitSQLStatements
     (''select '' @ [CHR 0x27] @ '';'' @ [CHR 0x27] @ '' as a;select '' @ [CHR 0x22] @ '';''
      @ [CHR 0x22] @ '';/* ; */x;$t$;$t$;-- c ; d'')
     = [''select '' @ [CHR 0x27] @ '';'' @ [CHR 0x27] @ '' as a'',
        ''select '' @ [CHR 0x22] @ '';'' @ [CHR 0x22], ''/* ; */x'', ''$t$;$t$'', ''-- c ; d'']
   \<and> splitSQLStatements ''--a;b'' = [''--a'', ''b'']
   \<and> splitSQLStatements
       (''$'' @ [CHR 0xC3, CHR 0xA9] @ ''$x$'' @ [CHR 0xC3, CHR 0xA9] @ ''$;b'')
     = [''$'' @ [CHR 0xC3, CHR 0xA9] @ ''$x$'' @ [CHR 0xC3, CHR 0xA9] @ ''$;b'']"
proof -
  have "splitSQLStatements
     (''select '' @ [CHR 0x27] @ '';'' @ [CHR 0x27] @ '' as a;select '' @ [CHR 0x22] @ '';''
      @ [CHR 0x22] @ '';/* ; */x;$t$;$t$;-- c ; d'')
     = [''select '' @ [CHR 0x27] @ '';'' @ [CHR 0x27] @ '' as a'',
        ''select '' @ [CHR 0x22] @ '';'' @ [CHR 0x22], ''/* ; */x'', ''$t$;$t$'', ''-- c ; d'']"
    by (simp add: eval_ascii)
  moreover have "splitSQLStatements ''--a;b'' = [''--a'', ''b'']"
    by (simp add: eval_ascii)
  moreover have "splitSQLStatements
       (''$'' @ [CHR 0xC3, CHR 0xA9] @ ''$x$'' @ [CHR 0xC3, CHR 0xA9] @ ''$;b'')
     = [''$'' @ [CHR 0xC3, CHR 0xA9] @ ''$x$'' @ [CHR 0xC3, CHR 0xA9] @ ''$;b'']"
    by (simp add: eval_defs)
  ultimately show ?thesis by (intro conjI)
qed

text \<open>
  C3.  The four lines of the test, joined by newlines (and also with the newline that ends
  the test's text block), are split into exactly two statements: the line comment with the
  select statement, and the block comment with the update statement.
\<close>

theorem split_comment_example:
  "splitSQLStatements
     (''-- keep ; in comment'' @ [CHR 0x0A] @ ''select '' @ [CHR 0x27] @ '';'' @ [CHR 0x27]
      @ '' as a;'' @ [CHR 0x0A] @ ''/* block ; comment */'' @ [CHR 0x0A]
      @ ''update users set name = '' @ [CHR 0x27] @ ''x;y'' @ [CHR 0x27] @ '' where id = 1;'')
   = [''-- keep ; in comment'' @ [CHR 0x0A] @ ''select '' @ [CHR 0x27] @ '';'' @ [CHR 0x27]
      @ '' as a'',
      ''/* block ; comment */'' @ [CHR 0x0A] @ ''update users set name = '' @ [CHR 0x27]
      @ ''x;y'' @ [CHR 0x27] @ '' where id = 1'']
   \<and> splitSQLStatements
     (''-- keep ; in comment'' @ [CHR 0x0A] @ ''select '' @ [CHR 0x27] @ '';'' @ [CHR 0x27]
      @ '' as a;'' @ [CHR 0x0A] @ ''/* block ; comment */'' @ [CHR 0x0A]
      @ ''update users set name = '' @ [CHR 0x27] @ ''x;y'' @ [CHR 0x27] @ '' where id = 1;''
      @ [CHR 0x0A])
   = [''-- keep ; in comment'' @ [CHR 0x0A] @ ''select '' @ [CHR 0x27] @ '';'' @ [CHR 0x27]
      @ '' as a'',
      ''/* block ; comment */'' @ [CHR 0x0A] @ ''update users set name = '' @ [CHR 0x27]
      @ ''x;y'' @ [CHR 0x27] @ '' where id = 1'']"
  by (simp add: eval_ascii)

text \<open>
  C6.  Unbalanced quoting or commenting is no error.  For every input the loop ends with
  the input exhausted, and whatever the lexical state then is, the result is the
  statements emitted so far followed by the trimmed buffer when that is not empty.
  Trimmed means: the buffer is the statement with white space only before and after it,
  and the statement neither begins nor ends with a white-space character.  The input
  \<^verbatim>\<open>select 1; /* never closed\<close> ends inside the block comment and gives the two
  statements \<^verbatim>\<open>select 1\<close> and \<^verbatim>\<open>/* never closed\<close>; so it does with blanks and a
  newline after it, and an input that ends inside a line comment, a single-quoted or a
  double-quoted literal or a dollar-quoted body gives its last statement without the
  white space around it.
\<close>

theorem unterminated_input_is_flushed:
  "reader (loop (start input)) = []
   \<and> splitSQLStatements input =
       statements (loop (start input))
       @ (if TrimSpace (sb (loop (start input))) = [] then []
          else [TrimSpace (sb (loop (start input)))])
   \<and> (\<exists>p q. sb (loop (start input)) = p @ TrimSpace (sb (loop (start input))) @ q
              \<and> TrimSpace p = [] \<and> TrimSpace q = [])
   \<and> (TrimSpace b = []
        \<or> (\<not> IsSpace (fst (decodeRune (TrimSpace b)))
            \<and> \<not> IsSpace (fst (DecodeLastRune (TrimSpace b)))))
   \<and> inBlockComment (loop (start ''select 1; /* never closed''))
   \<and> splitSQLStatements ''select 1; /* never closed'' = [''select 1'', ''/* never closed'']
   \<and> inBlockComment (loop (start (''select 1 ; /* never closed  '' @ [CHR 0x0A])))
   \<and> splitSQLStatements (''select 1 ; /* never closed  '' @ [CHR 0x0A])
       = [''select 1'', ''/* never closed'']
   \<and> inLineComment (loop (start ('' '' @ [CHR 0x0A] @ '' -- never ended '' @ [CHR 0x09, CHR '' ''])))
   \<and> splitSQLStatements ('' '' @ [CHR 0x0A] @ '' -- never ended '' @ [CHR 0x09, CHR '' ''])
       = [''-- never ended'']
   \<and> inSingle (loop (start (''a; select '' @ [CHR 0x27] @ ''b;c  '' @ [CHR 0x0A])))
   \<and> splitSQLStatements (''a; select '' @ [CHR 0x27] @ ''b;c  '' @ [CHR 0x0A])
       = [''a'', ''select '' @ [CHR 0x27] @ ''b;c'']
   \<and> inDouble (loop (start ([CHR 0x0D, CHR 0x0A] @ ''select '' @ [CHR 0x22] @ ''b;c '' @ [CHR 0x0D, CHR 0x0A])))
   \<and> splitSQLStatements ([CHR 0x0D, CHR 0x0A] @ ''select '' @ [CHR 0x22] @ ''b;c '' @ [CHR 0x0D, CHR 0x0A])
       = [''select '' @ [CHR 0x22] @ ''b;c'']
   \<and> dollarTag (loop (start ('' do $f$ begin; '' @ [CHR 0x0A, CHR 0x0A]))) = ''$f$''
   \<and> splitSQLStatements ('' do $f$ begin; '' @ [CHR 0x0A, CHR 0x0A]) = [''do $f$ begin;'']"
proof -
  have f1: "reader (loop (start input)) = []" by (rule loop_exhausts)
  have f2: "splitSQLStatements input =
       statements (loop (start input))
       @ (if TrimSpace (sb (loop (start input))) = [] then []
          else [TrimSpace (sb (loop (start input)))])"
    by (simp add: splitSQLStatements_def finish_def Let_def)
  have f3: "\<exists>p q. sb (loop (start input)) = p @ TrimSpace (sb (loop (start input))) @ q
              \<and> TrimSpace p = [] \<and> TrimSpace q = []"
    by (rule TrimSpace_blank_ends)
  have f4: "TrimSpace b = []
        \<or> (\<not> IsSpace (fst (decodeRune (TrimSpace b)))
            \<and> \<not> IsSpace (fst (DecodeLastRune (TrimSpace b))))"
    using TrimSpace_ends [of b] by blast
  have e1: "inBlockComment (loop (start ''select 1; /* never closed''))"
    "splitSQLStatements ''select 1; /* never closed'' = [''select 1'', ''/* never closed'']"
    by (simp_all add: eval_ascii)
  have e2: "inBlockComment (loop (start (''select 1 ; /* never closed  '' @ [CHR 0x0A])))"
    "splitSQLStatements (''select 1 ; /* never closed  '' @ [CHR 0x0A])
       = [''select 1'', ''/* never closed'']"
    by (simp_all add: eval_ascii)
  have e3:
    "inLineComment (loop (start ('' '' @ [CHR 0x0A] @ '' -- never ended '' @ [CHR 0x09, CHR '' ''])))"
    "splitSQLStatements ('' '' @ [CHR 0x0A] @ '' -- never ended '' @ [CHR 0x09, CHR '' ''])
       = [''-- never ended'']"
    by (simp_all add: eval_ascii)
  have e4:
    "inSingle (loop (start (''a; select '' @ [CHR 0x27] @ ''b;c  '' @ [CHR 0x0A])))"
    "splitSQLStatements (''a; select '' @ [CHR 0x27] @ ''b;c  '' @ [CHR 0x0A])
       = [''a'', ''select '' @ [CHR 0x27] @ ''b;c'']"
    by (simp_all add: eval_ascii)
  have e5:
    "inDouble (loop (start ([CHR 0x0D, CHR 0x0A] @ ''select '' @ [CHR 0x22] @ ''b;c '' @ [CHR 0x0D, CHR 0x0A])))"
    "splitSQLStatements ([CHR 0x0D, CHR 0x0A] @ ''select '' @ [CHR 0x22] @ ''b;c '' @ [CHR 0x0D, CHR 0x0A])
       = [''select '' @ [CHR 0x22] @ ''b;c'']"
    by (simp_all add: eval_ascii)
  have e6:
    "dollarTag (loop (start ('' do $f$ begin; '' @ [CHR 0x0A, CHR 0x0A]))) = ''$f$''"
    "splitSQLStatements ('' do $f$ begin; '' @ [CHR 0x0A, CHR 0x0A]) = [''do $f$ begin;'']"
    by (simp_all add: eval_ascii)
  show ?thesis
    by (intro conjI) (rule f1 f2 f3 f4 e1 e2 e3 e4 e5 e6)+
qed

text \<open>
  C9.  \<^verbatim>\<open>validate\<close> rejects a configuration exactly when the engine, the host, the
  database name or the SQL path is empty or the engine, in lower case, is none of
  \<^verbatim>\<open>oracle\<close>, \<^verbatim>\<open>sqlserver\<close>, \<^verbatim>\<open>postgres\<close>; a rejected configuration ends \<^verbatim>\<open>main\<close>
  before any file is read.  An accepted configuration is unchanged but for a zero port,
  which becomes the default port of its engine: 1521, 1433 or 5432.  The user name is
  \<^verbatim>\<open>db_admin\<close> when the command line gives none.
\<close>

theorem validate_rejects_and_defaults:
  "((\<exists>e. validate c = Inl e) \<longleftrightarrow>
      engine c = [] \<or> host c = [] \<or> dbname c = [] \<or> sqlPath c = []
      \<or> \<not> (ToLower (engine c) = ''oracle'' \<or> ToLower (engine c) = ''sqlserver''
             \<or> ToLower (engine c) = ''postgres''))
   \<and> (validate c = Inl e \<longrightarrow> mainPrefix readFile c = ([], Exit1 e))
   \<and> (validate c = Inr c' \<longrightarrow>
         c' = c\<lparr>port := (if port c = 0 then defaultPort (engine c) else port c)\<rparr>)
   \<and> (ToLower (engine c) = ''oracle'' \<longrightarrow> defaultPort (engine c) = 1521)
   \<and> (ToLower (engine c) = ''sqlserver'' \<longrightarrow> defaultPort (engine c) = 1433)
   \<and> (ToLower (engine c) = ''postgres'' \<longrightarrow> defaultPort (engine c) = 5432)
   \<and> username flagDefaults = ''db_admin''"
  using validate_rejects [of c] validate_accepts [of c c']
  by (simp add: mainPrefix_def defaultPort_def flagDefaults_def)

theorem validate_rejects_and_defaults_witness:
  "validate (flagDefaults\<lparr>engine := ''Postgres'', host := ''127.0.0.1'', dbname := ''app'',
                           sqlPath := ''a.sql''\<rparr>)
     = Inr \<lparr>engine = ''Postgres'', host = ''127.0.0.1'', port = 5432, username = ''db_admin'',
            password = [], dbname = ''app'', sqlPath = ''a.sql''\<rparr>
   \<and> mainPrefix (\<lambda>path. Inr ''select 1'')
         (flagDefaults\<lparr>engine := ''mysql'', host := ''127.0.0.1'', dbname := ''app'',
                        sqlPath := ''a.sql''\<rparr>)
     = ([], Exit1 ''unsupported engine: mysql'')"
proof -
  let ?ok = "flagDefaults\<lparr>engine := ''Postgres'', host := ''127.0.0.1'', dbname := ''app'',
                          sqlPath := ''a.sql''\<rparr>"
  let ?bad = "flagDefaults\<lparr>engine := ''mysql'', host := ''127.0.0.1'', dbname := ''app'',
                           sqlPath := ''a.sql''\<rparr>"
  have low: "ToLower ''Postgres'' = ''postgres''" "ToLower ''mysql'' = ''mysql''"
    by (simp_all add: ToLower_def lowerByte_def char_of_eq_iff)
  have bad: "validate ?bad = Inl ''unsupported engine: mysql''"
    by (simp add: validate_def flagDefaults_def low)
  obtain c' where ok: "validate ?ok = Inr c'"
    using validate_rejects_and_defaults [where c = ?ok]
    by (cases "validate ?ok") (simp_all add: flagDefaults_def low)
  from validate_rejects_and_defaults [where c = ?ok and c' = c'] ok
  have "c' = ?ok\<lparr>port := 5432\<rparr>" by (simp add: flagDefaults_def low)
  with ok bad validate_rejects_and_defaults
      [where c = ?bad and e = "''unsupported engine: mysql''"
        and readFile = "\<lambda>path. Inr ''select 1''"]
  show ?thesis by (simp add: flagDefaults_def)
qed

text \<open>
  C2.  The claim: in the Normal state the two characters \<^verbatim>\<open>--\<close> open a line comment.
  The loop looks at the two bytes after the first \<^verbatim>\<open>-\<close> and opens the comment (consuming
  and appending \<^verbatim>\<open>--\<close>) only when they are \<^verbatim>\<open>"- "\<close> or \<^verbatim>\<open>"--"\<close>; otherwise the
  \<^verbatim>\<open>-\<close> is an ordinary character.  So \<^verbatim>\<open>-- a;b\<close> opens a comment, \<^verbatim>\<open>--a;b\<close> does
  not, and its semicolon splits the line.
\<close>

theorem line_comment_needs_third_byte:
  "(normal s \<and> reader s = CHR ''-'' # rd \<longrightarrow>
      step s =
        (if take 2 rd = ''- '' \<or> take 2 rd = ''--''
         then s\<lparr>reader := tl rd, sb := sb s @ ''--'', inLineComment := True\<rparr>
         else s\<lparr>reader := rd, sb := sb s @ ''-''\<rparr>))
   \<and> inLineComment (step (start ''-- a;b''))
   \<and> splitSQLStatements ''-- a;b'' = [''-- a;b'']
   \<and> \<not> inLineComment (step (start ''--a;b''))
   \<and> splitSQLStatements ''--a;b'' = [''--a'', ''b'']"
  using step_dash [of s rd] by (simp add: eval_ascii)

theorem line_comment_needs_third_byte_witness:
  "step (start ''--a;b'')
     = \<lparr>reader = ''-a;b'', sb = ''-'', statements = [], inSingle = False, inDouble = False,
        inLineComment = False, inBlockComment = False, dollarTag = []\<rparr>
   \<and> step (start ''-- a;b'')
     = \<lparr>reader = '' a;b'', sb = ''--'', statements = [], inSingle = False, inDouble = False,
        inLineComment = True, inBlockComment = False, dollarTag = []\<rparr>"
  using line_comment_needs_third_byte [of "start ''--a;b''" "''-a;b''"]
    line_comment_needs_third_byte [of "start ''-- a;b''" "''- a;b''"]
  by (simp add: normal_def start_def)

text \<open>
  C4.  The claim: a statement that was emitted, split again on its own, is returned
  unchanged.  A dollar tag made of \<^verbatim>\<open>$\<close>, a two-byte letter (here U+00E9, the bytes
  C3 A9) and \<^verbatim>\<open>$\<close> has four bytes, and the loop that consumes the rest of a tag reads
  three runes instead of three bytes.  In a script that ends with a newline after the
  closing tag the newline is read as the third rune and trimmed away, so the statement
  ends with the tag; split again, the third read meets the end of the input and the rune 0
  is written.
\<close>

theorem resplit_dollar_tag_differs:
  "splitSQLStatements
     (''select $'' @ [CHR 0xC3, CHR 0xA9] @ ''$x$'' @ [CHR 0xC3, CHR 0xA9] @ ''$'' @ [CHR 0x0A])
     = [''select $'' @ [CHR 0xC3, CHR 0xA9] @ ''$x$'' @ [CHR 0xC3, CHR 0xA9] @ ''$'']
   \<and> splitSQLStatements
       (''select $'' @ [CHR 0xC3, CHR 0xA9] @ ''$x$'' @ [CHR 0xC3, CHR 0xA9] @ ''$'')
     = [''select $'' @ [CHR 0xC3, CHR 0xA9] @ ''$x$'' @ [CHR 0xC3, CHR 0xA9] @ ''$'' @ [CHR 0x00]]"
  by (simp add: eval_defs)

text \<open>
  C10.  The claim: every statement is a contiguous part of the input and no character is
  invented.  For a script whose last statement ends with the closing tag of that
  dollar-quoted literal, the statement returned ends with a zero byte, which the input
  does not have.
\<close>

theorem statement_with_invented_byte:
  "splitSQLStatements
     (''a;select $'' @ [CHR 0xC3, CHR 0xA9] @ ''$x$'' @ [CHR 0xC3, CHR 0xA9] @ ''$'')
     = [''a'', ''select $'' @ [CHR 0xC3, CHR 0xA9] @ ''$x$'' @ [CHR 0xC3, CHR 0xA9] @ ''$''
               @ [CHR 0x00]]
   \<and> CHR 0x00 \<notin> set (''a;select $'' @ [CHR 0xC3, CHR 0xA9] @ ''$x$'' @ [CHR 0xC3, CHR 0xA9]
                         @ ''$'')"
  by (simp add: eval_defs)

text \<open>
  C5.  As the claim states the rule for closing a dollar-quoted body, a \<^verbatim>\<open>$\<close> followed
  by the tag without its two \<^verbatim>\<open>$\<close> closes the body.  The code compares the
  \<^verbatim>\<open>len(tag)-1\<close> bytes after the \<^verbatim>\<open>$\<close> with the tag without its first \<^verbatim>\<open>$\<close>, so the
  closing \<^verbatim>\<open>$\<close> must be there too: inside \<^verbatim>\<open>$a$\<close> the text \<^verbatim>\<open>$ab\<close> passes the
  test of the claim and does not close the body.
\<close>

theorem dollar_close_needs_whole_tag_counterexample:
  "specDollarClose ''$a$'' ''ab;c''
   \<and> step \<lparr>reader = ''$ab;c'', sb = ''$a$x'', statements = [], inSingle = False,
            inDouble = False, inLineComment = False, inBlockComment = False,
            dollarTag = ''$a$''\<rparr>
       = \<lparr>reader = ''ab;c'', sb = ''$a$x$'', statements = [], inSingle = False,
          inDouble = False, inLineComment = False, inBlockComment = False,
          dollarTag = ''$a$''\<rparr>
   \<and> splitSQLStatements ''$a$x$ab;c'' = [''$a$x$ab;c'']"
  by (simp add: specDollarClose_def eval_ascii)

text \<open>
  C5, amended.  In the state DollarQuoted(tag), for a tag of ASCII characters, every
  character read is appended.  When it is \<^verbatim>\<open>$\<close> and the next \<^verbatim>\<open>len(tag)-1\<close>
  characters are the tag without its first \<^verbatim>\<open>$\<close>, these characters are consumed and
  appended and the state becomes Normal; otherwise the state stays DollarQuoted(tag), only
  the character read has been appended and the characters looked at are not consumed.
\<close>

theorem dollar_quoted_step:
  assumes "dollarQuoted tag s" and "\<forall>c\<in>set tag. rune_of c < (0x80::nat)"
    and "ReadRune (reader s) = Inr (ch, rd)"
  shows "step s =
     (if ch = rune_of CHR ''$'' \<and> take (length tag - 1) rd = tl tag
      then s\<lparr>reader := drop (length tag - 1) rd, sb := sb s @ ''$'' @ tl tag, dollarTag := []\<rparr>
      else s\<lparr>reader := rd, sb := sb s @ encodeRune ch\<rparr>)
     \<and> (if ch = rune_of CHR ''$'' \<and> take (length tag - 1) rd = tl tag
        then normal (step s) else dollarQuoted tag (step s))"
  using assms step_dollarQuoted [OF assms]
  by (simp add: dollarQuoted_def normal_def)

theorem dollar_quoted_step_witness:
  "step \<lparr>reader = ''$a$;c'', sb = ''$a$x'', statements = [], inSingle = False,
          inDouble = False, inLineComment = False, inBlockComment = False,
          dollarTag = ''$a$''\<rparr>
     = \<lparr>reader = '';c'', sb = ''$a$x$a$'', statements = [], inSingle = False,
        inDouble = False, inLineComment = False, inBlockComment = False, dollarTag = []\<rparr>
   \<and> step \<lparr>reader = '';$a$'', sb = ''$a$x'', statements = [], inSingle = False,
          inDouble = False, inLineComment = False, inBlockComment = False,
          dollarTag = ''$a$''\<rparr>
     = \<lparr>reader = ''$a$'', sb = ''$a$x;'', statements = [], inSingle = False,
        inDouble = False, inLineComment = False, inBlockComment = False,
        dollarTag = ''$a$''\<rparr>"
  using dollar_quoted_step
      [of "''$a$''" "\<lparr>reader = ''$a$;c'', sb = ''$a$x'', statements = [], inSingle = False,
          inDouble = False, inLineComment = False, inBlockComment = False,
          dollarTag = ''$a$''\<rparr>" "rune_of CHR ''$''" "''a$;c''"]
    dollar_quoted_step
      [of "''$a$''" "\<lparr>reader = '';$a$'', sb = ''$a$x'', statements = [], inSingle = False,
          inDouble = False, inLineComment = False, inBlockComment = False,
          dollarTag = ''$a$''\<rparr>" "rune_of CHR '';''" "''$a$''"]
  by (simp add: dollarQuoted_def ReadRune_ascii encodeRune_def char_of_def bit_0)

text \<open>
  C7.  The claim: for a script with no comments, quotes or dollar blocks, the number of
  statements is the number of semicolons followed by non-whitespace-only content.  The
  text before the first semicolon is a statement too when it is not blank: a script with
  one statement and no semicolon has no semicolon to count, and \<^verbatim>\<open>a;b\<close> has two
  statements and one semicolon.
\<close>

theorem statement_count_counterexample:
  "plainScript (runes ''select 1'')
   \<and> length (splitSQLStatements ''select 1'') = 1
   \<and> semicolonsFollowedByContent ''select 1'' = 0
   \<and> plainScript (runes ''a;b'')
   \<and> length (splitSQLStatements ''a;b'') = 2
   \<and> semicolonsFollowedByContent ''a;b'' = 1"
  by (simp add: semicolonsFollowedByContent_def blank_def runes_Nil runes_ascii eval_ascii)

text \<open>
  C7, amended.  For a script with no quote character, no \<^verbatim>\<open>$\<close>, no \<^verbatim>\<open>--\<close> and no
  \<^verbatim>\<open>/*\<close>, the number of statements is the number of semicolons followed (up to the
  next semicolon or the end) by non-whitespace-only content, plus one when the text before
  the first semicolon is not blank.  The statements are the trimmed non-blank segments, in
  order.
\<close>

theorem plain_script_statement_count:
  assumes "plainScript (runes script)"
  shows "length (splitSQLStatements script) =
           (if blank (hd (segments (runes script))) then 0 else 1)
           + semicolonsFollowedByContent script
         \<and> splitSQLStatements script =
             map (\<lambda>seg. TrimSpace (encodeRunes seg))
               (filter (\<lambda>seg. \<not> blank seg) (segments (runes script)))"
proof -
  let ?e = "\<lambda>seg. emit (encodeRunes seg)"
  have s: "splitSQLStatements script = concat (map ?e (segments (runes script)))"
    using assms by (rule split_plain)
  have "length (concat (map ?e (segments (runes script)))) =
          length (emit (encodeRunes (hd (segments (runes script)))))
          + length (concat (map ?e (tl (segments (runes script)))))"
    by (simp add: concat_emit_segments [of "runes script"])
  also have "length (emit (encodeRunes (hd (segments (runes script)))))
             = (if blank (hd (segments (runes script))) then 0 else 1)"
    by (simp add: emit_def blank_def)
  finally show ?thesis
    using s by (simp add: length_concat_emit concat_emit semicolonsFollowedByContent_def)
qed

theorem plain_script_statement_count_witness:
  "plainScript (runes '' a; ;b c; '')
   \<and> splitSQLStatements '' a; ;b c; '' = [''a'', ''b c'']
   \<and> semicolonsFollowedByContent '' a; ;b c; '' = 1"
proof -
  have r: "runes '' a; ;b c; '' = [32, 97, 59, 32, 59, 98, 32, 99, 59, 32]"
    by (simp add: runes_Nil runes_ascii)
  have p: "plainScript (runes '' a; ;b c; '')"
    by (simp add: r)
  have k: "blank [32]" "\<not> blank [32, 97]" "\<not> blank [98, 32, 99]"
    "TrimSpace (encodeRune 32 @ encodeRune 97) = ''a''"
    "TrimSpace (encodeRune 98 @ encodeRune 32 @ encodeRune 99) = ''b c''"
    by (simp_all add: blank_def eval_ascii)
  from plain_script_statement_count [OF p] p show ?thesis
    by (simp add: semicolonsFollowedByContent_def r k)
qed

end
